theory Spec2Isabelle
  imports Main
begin


section \<open>JavaScript strings\<close>

text \<open>
  The program is \<^verbatim>\<open>scripts/ci/patch-app-identity.mjs\<close>. A JavaScript string is a finite
  sequence of UTF-16 code units, so it is modelled as the list of its code units. Names that
  the program writes as literals and never inspects (environment variable names, file paths,
  the description handed to \<^verbatim>\<open>replaceOrThrow\<close>, the text of a regular expression literal)
  are HOL strings.
\<close>

type_synonym jsstring = "nat list"

definition js :: "string \<Rightarrow> jsstring" where
  "js s = map of_char s"

text \<open>
  \<^verbatim>\<open>\s\<close> and \<^verbatim>\<open>String.prototype.trim\<close> use the same set: WhiteSpace (TAB, VT, FF, SP, NBSP, ZWNBSP
  and the category Zs) and LineTerminator (LF, CR, LS, PS).
\<close>

definition is_space :: "nat \<Rightarrow> bool" where
  "is_space c \<longleftrightarrow>
     c = 9 \<or> c = 10 \<or> c = 11 \<or> c = 12 \<or> c = 13 \<or> c = 32 \<or> c = 160 \<or> c = 5760 \<or>
     (8192 \<le> c \<and> c \<le> 8202) \<or> c = 8232 \<or> c = 8233 \<or> c = 8239 \<or> c = 8287 \<or>
     c = 12288 \<or> c = 65279"

text \<open>The word characters of \<^verbatim>\<open>\b\<close> (no \<^verbatim>\<open>u\<close> or \<^verbatim>\<open>i\<close> flag): \<^verbatim>\<open>[A-Za-z0-9_]\<close>.\<close>

definition is_word :: "nat \<Rightarrow> bool" where
  "is_word c \<longleftrightarrow> (97 \<le> c \<and> c \<le> 122) \<or> (65 \<le> c \<and> c \<le> 90) \<or> (48 \<le> c \<and> c \<le> 57) \<or> c = 95"

definition is_digit :: "nat \<Rightarrow> bool" where
  "is_digit c \<longleftrightarrow> 48 \<le> c \<and> c \<le> 57"

definition trim :: "jsstring \<Rightarrow> jsstring" where
  "trim s = rev (dropWhile is_space (rev (dropWhile is_space s)))"

definition looking_at :: "jsstring \<Rightarrow> nat \<Rightarrow> jsstring \<Rightarrow> bool" where
  "looking_at s i w \<longleftrightarrow> take (length w) (drop i s) = w"

text \<open>\<^verbatim>\<open>String.prototype.includes\<close>.\<close>

definition str_includes :: "jsstring \<Rightarrow> jsstring \<Rightarrow> bool" where
  "str_includes s w = list_ex (\<lambda>i. looking_at s i w) [0..<length s + 1]"

section \<open>Regular expressions\<close>

text \<open>
  The constructs that the nine regular expression literals of the program use. \<open>Class True\<close> is
  a character class, \<open>Class False\<close> a negated one; \<open>Star True\<close> is the greedy \<^verbatim>\<open>*\<close>, \<open>Star False\<close>
  the lazy \<^verbatim>\<open>*?\<close>; \<open>Group n\<close> is the \<open>n\<close>-th capturing parenthesis and \<open>Backref n\<close> is \<^verbatim>\<open>\n\<close>.
  \<open>InputStart\<close> and \<open>InputEnd\<close> are \<^verbatim>\<open>^\<close> and \<^verbatim>\<open>$\<close> without the \<^verbatim>\<open>m\<close> flag (the only literal that
  has them has no flag).
\<close>

datatype class_atom = CChar nat | CRange nat nat | CSpace | CNotSpace

fun atom_matches :: "class_atom \<Rightarrow> nat \<Rightarrow> bool" where
  "atom_matches (CChar a) c = (c = a)"
| "atom_matches (CRange a b) c = (a \<le> c \<and> c \<le> b)"
| "atom_matches CSpace c = is_space c"
| "atom_matches CNotSpace c = (\<not> is_space c)"

definition class_matches :: "bool \<Rightarrow> class_atom list \<Rightarrow> nat \<Rightarrow> bool" where
  "class_matches positive atoms c = (list_ex (\<lambda>a. atom_matches a c) atoms = positive)"

datatype regex =
    Lit jsstring
  | Class bool "class_atom list"
  | WordBoundary
  | InputStart
  | InputEnd
  | Seq regex regex
  | Group nat regex
  | Backref nat
  | Star bool regex

abbreviation Plus :: "bool \<Rightarrow> regex \<Rightarrow> regex" where
  "Plus greedy r \<equiv> Seq r (Star greedy r)"

type_synonym captures = "nat \<Rightarrow> jsstring option"

type_synonym mstate = "nat \<times> captures"

definition word_at :: "jsstring \<Rightarrow> nat \<Rightarrow> bool" where
  "word_at s i \<longleftrightarrow> i < length s \<and> is_word (s ! i)"

definition at_boundary :: "jsstring \<Rightarrow> nat \<Rightarrow> bool" where
  "at_boundary s i \<longleftrightarrow> ((0 < i \<and> word_at s (i - 1)) \<noteq> word_at s i)"

text \<open>
  The backtracking matcher of ECMAScript, written as the list of its outcomes in the order in
  which backtracking tries them: \<open>run s r (i, caps)\<close> lists the end index and captures of every
  way \<open>r\<close> matches \<open>s\<close> from index \<open>i\<close>, the one the engine takes first at the head. An iteration
  of \<open>Star\<close> that consumes nothing is rejected, as in RepeatMatcher. (No literal of the program
  has a group under a quantifier, so captures are never reset.)
\<close>

function (sequential) run :: "jsstring \<Rightarrow> regex \<Rightarrow> mstate \<Rightarrow> mstate list" where
  "run s (Lit w) (i, caps) = (if looking_at s i w then [(i + length w, caps)] else [])"
| "run s (Class positive atoms) (i, caps) =
     (if i < length s \<and> class_matches positive atoms (s ! i) then [(i + 1, caps)] else [])"
| "run s WordBoundary (i, caps) = (if at_boundary s i then [(i, caps)] else [])"
| "run s InputStart (i, caps) = (if i = 0 then [(i, caps)] else [])"
| "run s InputEnd (i, caps) = (if i = length s then [(i, caps)] else [])"
| "run s (Seq r1 r2) st = concat (map (run s r2) (run s r1 st))"
| "run s (Group n r) (i, caps) =
     map (\<lambda>(j, caps'). (j, caps'(n \<mapsto> take (j - i) (drop i s)))) (run s r (i, caps))"
| "run s (Backref n) (i, caps) =
     (case caps n of
        None \<Rightarrow> [(i, caps)]
      | Some w \<Rightarrow> if looking_at s i w then [(i + length w, caps)] else [])"
| "run s (Star greedy r) (i, caps) =
     (let more = concat (map (run s (Star greedy r))
                   (filter (\<lambda>(j, _). i < j \<and> j \<le> length s) (run s r (i, caps))))
      in if greedy then more @ [(i, caps)] else (i, caps) # more)"
  by pat_completeness auto
termination
  by (relation "measures [\<lambda>(s, r, st). size r, \<lambda>(s, r, (i, caps)). length s - i]") auto

fun count_groups :: "regex \<Rightarrow> nat" where
  "count_groups (Seq r1 r2) = count_groups r1 + count_groups r2"
| "count_groups (Group n r) = 1 + count_groups r"
| "count_groups (Star greedy r) = count_groups r"
| "count_groups r = 0"

text \<open>
  RegExpBuiltinExec for a regular expression without the \<^verbatim>\<open>g\<close> or \<^verbatim>\<open>y\<close> flag: the start
  indices \<open>0, 1, \<dots>, length s\<close> are tried in turn. The result is the start index, the end index
  and the captures of the first match.
\<close>

fun first_match :: "jsstring \<Rightarrow> regex \<Rightarrow> nat list \<Rightarrow> (nat \<times> nat \<times> captures) option" where
  "first_match s r [] = None"
| "first_match s r (i # is) =
     (case run s r (i, \<lambda>_. None) of
        [] \<Rightarrow> first_match s r is
      | (j, caps) # _ \<Rightarrow> Some (i, j, caps))"

definition exec :: "regex \<Rightarrow> jsstring \<Rightarrow> (nat \<times> nat \<times> captures) option" where
  "exec r s = first_match s r [0..<length s + 1]"

text \<open>A regular expression literal: its text, as \<^verbatim>\<open>${re}\<close> prints it, and its pattern.\<close>

record regexp =
  source :: string
  pattern :: regex

definition test :: "regexp \<Rightarrow> jsstring \<Rightarrow> bool" where
  "test re s \<longleftrightarrow> exec (pattern re) s \<noteq> None"

definition cap_text :: "captures \<Rightarrow> nat \<Rightarrow> jsstring" where
  "cap_text caps n = (case caps n of None \<Rightarrow> [] | Some w \<Rightarrow> w)"

text \<open>
  GetSubstitution: the expansion of a replacement string, which \<^verbatim>\<open>replace\<close> and \<^verbatim>\<open>replaceAll\<close>
  apply to every replacement given as a string. \<open>m\<close> is the number of capturing groups; there
  are no named groups, so \<^verbatim>\<open>$<\<close> is literal. Code unit 36 is \<^verbatim>\<open>$\<close>, 96 the backtick, 38 is
  \<^verbatim>\<open>&\<close> and 39 the apostrophe.
\<close>

fun getSubstitution ::
  "jsstring \<Rightarrow> jsstring \<Rightarrow> jsstring \<Rightarrow> captures \<Rightarrow> nat \<Rightarrow> jsstring \<Rightarrow> jsstring" where
  "getSubstitution matched preceding following caps m [] = []"
| "getSubstitution matched preceding following caps m [c] = [c]"
| "getSubstitution matched preceding following caps m (c # d # t) =
     (if c \<noteq> 36 then c # getSubstitution matched preceding following caps m (d # t)
      else if d = 36 then 36 # getSubstitution matched preceding following caps m t
      else if d = 96 then preceding @ getSubstitution matched preceding following caps m t
      else if d = 38 then matched @ getSubstitution matched preceding following caps m t
      else if d = 39 then following @ getSubstitution matched preceding following caps m t
      else if is_digit d then
        (let one = (if 1 \<le> d - 48 \<and> d - 48 \<le> m then cap_text caps (d - 48) else [36, d])
                   @ getSubstitution matched preceding following caps m t
         in case t of
              [] \<Rightarrow> one
            | e # t' \<Rightarrow>
                if is_digit e then
                  (let nn = 10 * (d - 48) + (e - 48)
                   in if m < nn then one
                      else (if 1 \<le> nn then cap_text caps nn else [36, d, e])
                           @ getSubstitution matched preceding following caps m t')
                else one)
      else 36 # getSubstitution matched preceding following caps m (d # t))"

text \<open>\<^verbatim>\<open>String.prototype.replace\<close> with a regular expression without the \<^verbatim>\<open>g\<close> flag.\<close>

definition replace :: "regexp \<Rightarrow> jsstring \<Rightarrow> jsstring \<Rightarrow> jsstring" where
  "replace re s replacement =
     (case exec (pattern re) s of
        None \<Rightarrow> s
      | Some (i, j, caps) \<Rightarrow>
          take i s
          @ getSubstitution (take (j - i) (drop i s)) (take i s) (drop j s) caps
              (count_groups (pattern re)) replacement
          @ drop j s)"

text \<open>The same with a replacer function, which receives the captures.\<close>

definition replace_with :: "regexp \<Rightarrow> jsstring \<Rightarrow> (captures \<Rightarrow> jsstring) \<Rightarrow> jsstring" where
  "replace_with re s replacer =
     (case exec (pattern re) s of
        None \<Rightarrow> s
      | Some (i, j, caps) \<Rightarrow> take i s @ replacer caps @ drop j s)"

text \<open>
  \<^verbatim>\<open>String.prototype.replaceAll\<close> with a search string and a replacement string: the occurrences
  are searched from left to right, each search starting where the previous occurrence ended
  (one code unit later for an empty search string).
\<close>

function replaceAll_from :: "jsstring \<Rightarrow> jsstring \<Rightarrow> jsstring \<Rightarrow> nat \<Rightarrow> jsstring" where
  "replaceAll_from s search replacement i =
     (if length s < i + length search then drop i s
      else if looking_at s i search then
        getSubstitution search (take i s) (drop (i + length search) s) (\<lambda>_. None) 0 replacement
        @ (if search = [] then (if i < length s then s ! i # replaceAll_from s search replacement (i + 1) else [])
           else replaceAll_from s search replacement (i + length search))
      else s ! i # replaceAll_from s search replacement (i + 1))"
  by pat_completeness auto
termination
  by (relation "measure (\<lambda>(s, search, replacement, i). length s + 1 - i)")
    (auto simp: neq_Nil_conv)

definition replaceAll :: "jsstring \<Rightarrow> jsstring \<Rightarrow> jsstring \<Rightarrow> jsstring" where
  "replaceAll s search replacement = replaceAll_from s search replacement 0"

section \<open>Errors\<close>

text \<open>
  Every failure of the program is a thrown \<^verbatim>\<open>Error\<close> that nothing catches. \<open>MissingEnv\<close>,
  \<open>SlugFormat\<close> and \<open>ProductNameEmpty\<close> are the three \<^verbatim>\<open>throw\<close> statements of the validation,
  \<open>PatternNotFound what re\<close> is the one of \<^verbatim>\<open>replaceOrThrow\<close>; \<open>FileNotFound\<close> is what
  \<^verbatim>\<open>fs.readFileSync\<close> throws for a missing file, \<open>JsonSyntaxError\<close> what \<^verbatim>\<open>JSON.parse\<close> throws, and
  \<open>TypeError\<close> what an assignment to a property of a primitive value throws in a module.
  \<open>Unmodelled\<close> marks the one input this model does not follow: a number in the manifest
  that is not an integer of magnitude at most \<open>2^53\<close> (its printing needs the rounding of
  IEEE-754 doubles).
\<close>

datatype error =
    MissingEnv string
  | SlugFormat jsstring
  | ProductNameEmpty
  | PatternNotFound string string
  | FileNotFound string
  | JsonSyntaxError
  | TypeError
  | Unmodelled

text \<open>The classes of the specification's error taxonomy.\<close>

datatype error_class = ConfigurationError | PatternNotFoundError | FilesystemError | OtherError

fun class_of :: "error \<Rightarrow> error_class" where
  "class_of (MissingEnv name) = ConfigurationError"
| "class_of (SlugFormat input) = ConfigurationError"
| "class_of ProductNameEmpty = ConfigurationError"
| "class_of (PatternNotFound what re) = PatternNotFoundError"
| "class_of (FileNotFound path) = FilesystemError"
| "class_of e = OtherError"

section \<open>JSON\<close>

datatype json =
    JNull
  | JBool bool
  | JNumber int
  | JString jsstring
  | JArray "json list"
  | JObject "(jsstring \<times> json) list"

subsection \<open>QuoteJSONString\<close>

definition hex_digit :: "nat \<Rightarrow> nat" where
  "hex_digit d = (if d < 10 then 48 + d else 87 + d)"

definition unicode_escape :: "nat \<Rightarrow> jsstring" where
  "unicode_escape c =
     [92, 117, hex_digit (c div 4096 mod 16), hex_digit (c div 256 mod 16),
      hex_digit (c div 16 mod 16), hex_digit (c mod 16)]"

definition is_leading_surrogate :: "nat \<Rightarrow> bool" where
  "is_leading_surrogate c \<longleftrightarrow> 55296 \<le> c \<and> c \<le> 56319"

definition is_trailing_surrogate :: "nat \<Rightarrow> bool" where
  "is_trailing_surrogate c \<longleftrightarrow> 56320 \<le> c \<and> c \<le> 57343"

fun quote_units :: "jsstring \<Rightarrow> jsstring" where
  "quote_units [] = []"
| "quote_units (c # t) =
     (if c = 8 then [92, 98] @ quote_units t
      else if c = 9 then [92, 116] @ quote_units t
      else if c = 10 then [92, 110] @ quote_units t
      else if c = 12 then [92, 102] @ quote_units t
      else if c = 13 then [92, 114] @ quote_units t
      else if c = 34 then [92, 34] @ quote_units t
      else if c = 92 then [92, 92] @ quote_units t
      else if c < 32 then unicode_escape c @ quote_units t
      else if is_leading_surrogate c then
        (case t of
           [] \<Rightarrow> unicode_escape c
         | d # t' \<Rightarrow>
             if is_trailing_surrogate d then c # d # quote_units t'
             else unicode_escape c @ quote_units t)
      else if is_trailing_surrogate c then unicode_escape c @ quote_units t
      else c # quote_units t)"

definition QuoteJSONString :: "jsstring \<Rightarrow> jsstring" where
  "QuoteJSONString s = [34] @ quote_units s @ [34]"

subsection \<open>\<^verbatim>\<open>JSON.stringify(value, null, 2)\<close>\<close>

fun show_nat :: "nat \<Rightarrow> jsstring" where
  "show_nat n = (if n < 10 then [48 + n] else show_nat (n div 10) @ [48 + n mod 10])"

definition show_int :: "int \<Rightarrow> jsstring" where
  "show_int n = (if n < 0 then 45 # show_nat (nat (- n)) else show_nat (nat n))"

fun join :: "jsstring \<Rightarrow> jsstring list \<Rightarrow> jsstring" where
  "join sep [] = []"
| "join sep [x] = x"
| "join sep (x # y # ys) = x @ sep @ join sep (y # ys)"

fun serialize :: "jsstring \<Rightarrow> json \<Rightarrow> jsstring" where
  "serialize indent JNull = js ''null''"
| "serialize indent (JBool b) = (if b then js ''true'' else js ''false'')"
| "serialize indent (JNumber n) = show_int n"
| "serialize indent (JString s) = QuoteJSONString s"
| "serialize indent (JArray xs) =
     (if xs = [] then js ''[]''
      else js ''['' @ [10] @ (indent @ js ''  '')
           @ join ([44, 10] @ (indent @ js ''  '')) (map (serialize (indent @ js ''  '')) xs)
           @ [10] @ indent @ js '']'')"
| "serialize indent (JObject ps) =
     (if ps = [] then js ''{}''
      else js ''{'' @ [10] @ (indent @ js ''  '')
           @ join ([44, 10] @ (indent @ js ''  ''))
               (map (\<lambda>p. QuoteJSONString (fst p) @ js '': '' @ serialize (indent @ js ''  '') (snd p)) ps)
           @ [10] @ indent @ js ''}'')"

definition JSON_stringify :: "json \<Rightarrow> jsstring" where
  "JSON_stringify v = serialize [] v"

subsection \<open>\<^verbatim>\<open>JSON.parse\<close>\<close>

definition is_json_ws :: "nat \<Rightarrow> bool" where
  "is_json_ws c \<longleftrightarrow> c = 32 \<or> c = 9 \<or> c = 10 \<or> c = 13"

definition skip_ws :: "jsstring \<Rightarrow> jsstring" where
  "skip_ws s = dropWhile is_json_ws s"

definition hex_val :: "nat \<Rightarrow> nat option" where
  "hex_val c =
     (if 48 \<le> c \<and> c \<le> 57 then Some (c - 48)
      else if 97 \<le> c \<and> c \<le> 102 then Some (c - 87)
      else if 65 \<le> c \<and> c \<le> 70 then Some (c - 55)
      else None)"

definition escape_char :: "nat \<Rightarrow> nat option" where
  "escape_char e =
     (if e = 34 \<or> e = 92 \<or> e = 47 then Some e
      else if e = 98 then Some 8
      else if e = 102 then Some 12
      else if e = 110 then Some 10
      else if e = 114 then Some 13
      else if e = 116 then Some 9
      else None)"

definition cons_unit :: "nat \<Rightarrow> error + (jsstring \<times> jsstring) \<Rightarrow> error + (jsstring \<times> jsstring)" where
  "cons_unit c r = (case r of Inl e \<Rightarrow> Inl e | Inr (str, rest) \<Rightarrow> Inr (c # str, rest))"

text \<open>The characters of a string literal after its opening quote, and what follows it.\<close>

fun parse_string_body :: "jsstring \<Rightarrow> error + (jsstring \<times> jsstring)" where
  "parse_string_body [] = Inl JsonSyntaxError"
| "parse_string_body (c # t) =
     (if c = 34 then Inr ([], t)
      else if c = 92 then
        (case t of
           [] \<Rightarrow> Inl JsonSyntaxError
         | e # t' \<Rightarrow>
             if e = 117 then
               (case t' of
                  h1 # h2 # h3 # h4 # t'' \<Rightarrow>
                    (case (hex_val h1, hex_val h2, hex_val h3, hex_val h4) of
                       (Some a, Some b, Some c', Some d) \<Rightarrow>
                         cons_unit (4096 * a + 256 * b + 16 * c' + d) (parse_string_body t'')
                     | _ \<Rightarrow> Inl JsonSyntaxError)
                | _ \<Rightarrow> Inl JsonSyntaxError)
             else
               (case escape_char e of
                  None \<Rightarrow> Inl JsonSyntaxError
                | Some x \<Rightarrow> cons_unit x (parse_string_body t')))
      else if c < 32 then Inl JsonSyntaxError
      else cons_unit c (parse_string_body t))"

definition digits_val :: "jsstring \<Rightarrow> nat" where
  "digits_val ds = foldl (\<lambda>a d. 10 * a + (d - 48)) 0 ds"

text \<open>
  A number: an optional minus sign and the integer part (a single 0, or digits that do not
  start with 0). A fraction or an exponent, or a magnitude above \<open>2^53\<close>, is \<open>Unmodelled\<close>.
\<close>

definition parse_number :: "jsstring \<Rightarrow> error + (json \<times> jsstring)" where
  "parse_number s =
     (let negative = (s \<noteq> [] \<and> hd s = 45);
          u = (if negative then tl s else s);
          ds = (if u \<noteq> [] \<and> hd u = 48 then [48] else takeWhile is_digit u);
          rest = drop (length ds) u
      in if ds = [] then Inl JsonSyntaxError
         else if rest \<noteq> [] \<and> (hd rest = 46 \<or> hd rest = 101 \<or> hd rest = 69) then Inl Unmodelled
         else if 9007199254740992 < digits_val ds then Inl Unmodelled
         else Inr (JNumber (if negative then - int (digits_val ds) else int (digits_val ds)), rest))"

text \<open>
  The own properties of an ordinary object are enumerated with the array indices first, in
  ascending order, then the other keys in the order of their creation. A key that is set
  again keeps its place.
\<close>

definition is_array_index :: "jsstring \<Rightarrow> bool" where
  "is_array_index k \<longleftrightarrow>
     k \<noteq> [] \<and> list_all is_digit k \<and> (k = [48] \<or> hd k \<noteq> 48) \<and> digits_val k < 4294967295"

fun insert_index :: "(jsstring \<times> json) list \<Rightarrow> jsstring \<Rightarrow> json \<Rightarrow> (jsstring \<times> json) list" where
  "insert_index [] k v = [(k, v)]"
| "insert_index (p # ps) k v =
     (if is_array_index (fst p) \<and> digits_val (fst p) < digits_val k then p # insert_index ps k v
      else (k, v) # p # ps)"

definition obj_put :: "(jsstring \<times> json) list \<Rightarrow> jsstring \<Rightarrow> json \<Rightarrow> (jsstring \<times> json) list" where
  "obj_put ps k v =
     (if list_ex (\<lambda>p. fst p = k) ps then map (\<lambda>p. if fst p = k then (k, v) else p) ps
      else if is_array_index k then insert_index ps k v
      else ps @ [(k, v)])"

function (sequential) parse_value :: "jsstring \<Rightarrow> error + (json \<times> jsstring)"
  and parse_elements :: "json list \<Rightarrow> jsstring \<Rightarrow> error + (json \<times> jsstring)"
  and parse_members :: "(jsstring \<times> json) list \<Rightarrow> jsstring \<Rightarrow> error + (json \<times> jsstring)"
where
  "parse_value s =
     (case skip_ws s of
        [] \<Rightarrow> Inl JsonSyntaxError
      | c # t \<Rightarrow>
          if c = 123 then
            (case skip_ws t of
               [] \<Rightarrow> Inl JsonSyntaxError
             | d # u \<Rightarrow> if d = 125 then Inr (JObject [], u) else parse_members [] (d # u))
          else if c = 91 then
            (case skip_ws t of
               [] \<Rightarrow> Inl JsonSyntaxError
             | d # u \<Rightarrow> if d = 93 then Inr (JArray [], u) else parse_elements [] (d # u))
          else if c = 34 then
            (case parse_string_body t of Inl e \<Rightarrow> Inl e | Inr (str, rest) \<Rightarrow> Inr (JString str, rest))
          else if looking_at (c # t) 0 (js ''true'') then Inr (JBool True, drop 4 (c # t))
          else if looking_at (c # t) 0 (js ''false'') then Inr (JBool False, drop 5 (c # t))
          else if looking_at (c # t) 0 (js ''null'') then Inr (JNull, drop 4 (c # t))
          else parse_number (c # t))"
| "parse_elements acc s =
     (case parse_value s of
        Inl e \<Rightarrow> Inl e
      | Inr (v, r) \<Rightarrow>
          if length r < length s then
            (case skip_ws r of
               [] \<Rightarrow> Inl JsonSyntaxError
             | c # t \<Rightarrow>
                 if c = 44 then parse_elements (acc @ [v]) t
                 else if c = 93 then Inr (JArray (acc @ [v]), t)
                 else Inl JsonSyntaxError)
          else Inl JsonSyntaxError)"
| "parse_members acc s =
     (case skip_ws s of
        [] \<Rightarrow> Inl JsonSyntaxError
      | c # t \<Rightarrow>
          if c \<noteq> 34 then Inl JsonSyntaxError
          else
            (case parse_string_body t of
               Inl e \<Rightarrow> Inl e
             | Inr (k, r) \<Rightarrow>
                 (case skip_ws r of
                    [] \<Rightarrow> Inl JsonSyntaxError
                  | c2 # t2 \<Rightarrow>
                      if c2 \<noteq> 58 \<or> \<not> length t2 < length s then Inl JsonSyntaxError
                      else
                        (case parse_value t2 of
                           Inl e \<Rightarrow> Inl e
                         | Inr (v, r2) \<Rightarrow>
                             (case skip_ws r2 of
                                [] \<Rightarrow> Inl JsonSyntaxError
                              | c3 # t3 \<Rightarrow>
                                  if c3 = 44 \<and> length t3 < length s then parse_members (obj_put acc k v) t3
                                  else if c3 = 125 then Inr (JObject (obj_put acc k v), t3)
                                  else Inl JsonSyntaxError)))))"
  by pat_completeness auto
termination
proof -
  have shorter: "n < length xs" if "length (dropWhile is_json_ws xs) = Suc n" for n and xs :: jsstring
    using that length_dropWhile_le [of is_json_ws xs] by simp
  have shorter2: "Suc m < length xs"
    if "length (dropWhile is_json_ws xs) = Suc n" "length (dropWhile is_json_ws ys) = Suc m" "length ys = n"
    for n m and xs ys :: jsstring
    using that shorter [of xs n] shorter [of ys m] by simp
  have shorter3: "m < k"
    if "length (dropWhile is_json_ws ys) = Suc m" "length ys < k" for m k and ys :: jsstring
    using that shorter [of ys m] by simp
  show ?thesis
    by (relation "measures [\<lambda>x. case x of Inl s \<Rightarrow> length s | Inr (Inl (acc, s)) \<Rightarrow> length s
                                     | Inr (Inr (acc, s)) \<Rightarrow> length s,
                            \<lambda>x. case x of Inl s \<Rightarrow> 0 | Inr y \<Rightarrow> 1]")
      (auto simp: skip_ws_def dest!: arg_cong [where f = length] intro: shorter2 shorter3 dest: shorter)
qed

definition JSON_parse :: "jsstring \<Rightarrow> error + json" where
  "JSON_parse text =
     (case parse_value text of
        Inl e \<Rightarrow> Inl e
      | Inr (v, rest) \<Rightarrow> if skip_ws rest = [] then Inr v else Inl JsonSyntaxError)"

text \<open>
  \<^verbatim>\<open>pkg.name = value\<close> in a module (strict mode). A named property of an array is not printed
  by \<^verbatim>\<open>JSON.stringify\<close>, so the array is left as it is.
\<close>

fun set_property :: "json \<Rightarrow> jsstring \<Rightarrow> json \<Rightarrow> error + json" where
  "set_property (JObject ps) k v = Inr (JObject (obj_put ps k v))"
| "set_property (JArray xs) k v = Inr (JArray xs)"
| "set_property pkg k v = Inl TypeError"

section \<open>The regular expression literals of the program\<close>

fun cat :: "regex list \<Rightarrow> regex" where
  "cat [] = Lit []"
| "cat [r] = r"
| "cat (r # rs) = Seq r (cat rs)"

definition bs :: string where
  "bs = [CHR 0x5C]"

abbreviation space :: regex where
  "space \<equiv> Class True [CSpace]"

abbreviation anything :: regex where
  "anything \<equiv> Class True [CSpace, CNotSpace]"

text \<open>The double quote, the apostrophe and the backtick.\<close>

definition quote_atoms :: "class_atom list" where
  "quote_atoms = [CChar 34, CChar 39, CChar 96]"

text \<open>
  The tail that five literals share: the groups 2, 3 and 4 of
  \<^verbatim>\<open>(["'`])([^"'`]+)(\2)\<close>.
\<close>

definition quoted_value :: regex where
  "quoted_value =
     cat [Group 2 (Class True quote_atoms),
          Group 3 (Plus True (Class False quote_atoms)),
          Group 4 (Backref 2)]"

definition slug_re :: regexp where
  "slug_re =
     \<lparr>source = ''/^[a-z0-9][a-z0-9-]*$/'',
      pattern = cat [InputStart,
                     Class True [CRange 97 122, CRange 48 57],
                     Star True (Class True [CRange 97 122, CRange 48 57, CChar 45]),
                     InputEnd]\<rparr>"

definition appId_re :: regexp where
  \<open>appId_re =
     \<lparr>source = ''/('' @ bs @ ''bappId:'' @ bs @ ''s*)(["'`])([^"'`]+)('' @ bs @ ''2)/'',
      pattern = cat [Group 1 (cat [WordBoundary, Lit (js ''appId:''), Star True space]),
                     quoted_value]\<rparr>\<close>

definition productName_re :: regexp where
  \<open>productName_re =
     \<lparr>source = ''/('' @ bs @ ''bproductName:'' @ bs @ ''s*)(["'`])([^"'`]+)('' @ bs @ ''2)/'',
      pattern = cat [Group 1 (cat [WordBoundary, Lit (js ''productName:''), Star True space]),
                     quoted_value]\<rparr>\<close>

definition win_test_re :: regexp where
  \<open>win_test_re =
     \<lparr>source = ''/'' @ bs @ ''bwin:'' @ bs @ ''s*'' @ bs @ ''{['' @ bs @ ''s'' @ bs @ ''S]*?''
                @ bs @ ''bexecutableName:'' @ bs @ ''s*["'`]/m'',
      pattern = cat [WordBoundary, Lit (js ''win:''), Star True space, Lit (js ''{''),
                     Star False anything,
                     WordBoundary, Lit (js ''executableName:''), Star True space,
                     Class True quote_atoms]\<rparr>\<close>

definition win_re :: regexp where
  \<open>win_re =
     \<lparr>source = ''/('' @ bs @ ''bwin:'' @ bs @ ''s*'' @ bs @ ''{['' @ bs @ ''s'' @ bs @ ''S]*?''
                @ bs @ ''bexecutableName:'' @ bs @ ''s*)(["'`])([^"'`]+)('' @ bs @ ''2)/m'',
      pattern = cat [Group 1 (cat [WordBoundary, Lit (js ''win:''), Star True space, Lit (js ''{''),
                                   Star False anything,
                                   WordBoundary, Lit (js ''executableName:''), Star True space]),
                     quoted_value]\<rparr>\<close>

definition linux_test_re :: regexp where
  \<open>linux_test_re =
     \<lparr>source = ''/linux:'' @ bs @ ''s*'' @ bs @ ''{['' @ bs @ ''s'' @ bs @ ''S]*?''
                @ bs @ ''bexecutableName:'' @ bs @ ''s*["'`]/m'',
      pattern = cat [Lit (js ''linux:''), Star True space, Lit (js ''{''),
                     Star False anything,
                     WordBoundary, Lit (js ''executableName:''), Star True space,
                     Class True quote_atoms]\<rparr>\<close>

definition linux_re :: regexp where
  \<open>linux_re =
     \<lparr>source = ''/(linux:'' @ bs @ ''s*'' @ bs @ ''{['' @ bs @ ''s'' @ bs @ ''S]*?''
                @ bs @ ''bexecutableName:'' @ bs @ ''s*)(["'`])([^"'`]+)('' @ bs @ ''2)/m'',
      pattern = cat [Group 1 (cat [Lit (js ''linux:''), Star True space, Lit (js ''{''),
                                   Star False anything,
                                   WordBoundary, Lit (js ''executableName:''), Star True space]),
                     quoted_value]\<rparr>\<close>

definition linux_insert_re :: regexp where
  "linux_insert_re =
     \<lparr>source = ''/(linux:'' @ bs @ ''s*'' @ bs @ ''{'' @ bs @ ''s*'' @ bs @ ''n)/m'',
      pattern = Group 1 (cat [Lit (js ''linux:''), Star True space, Lit (js ''{''),
                              Star True space, Lit [10]])\<rparr>"

definition xdg_re :: regexp where
  \<open>xdg_re =
     \<lparr>source = ''/xdg-settings set default-web-browser'' @ bs @ ''s+[^'' @ bs @ ''s"']+/'',
      pattern = cat [Lit (js ''xdg-settings set default-web-browser''),
                     Plus True space,
                     Plus True (Class False [CSpace, CChar 34, CChar 39])]\<rparr>\<close>

section \<open>The program\<close>

subsection \<open>Validation\<close>

text \<open>\<^verbatim>\<open>process.env\<close>: an unset variable reads as \<^verbatim>\<open>undefined\<close>.\<close>

type_synonym env = "string \<Rightarrow> jsstring option"

definition requireEnv :: "env \<Rightarrow> string \<Rightarrow> error + jsstring" where
  "requireEnv env name =
     (case env name of
        None \<Rightarrow> Inl (MissingEnv name)
      | Some v \<Rightarrow> if v = [] then Inl (MissingEnv name) else Inr v)"

definition sanitizeSlug :: "jsstring \<Rightarrow> error + jsstring" where
  "sanitizeSlug input =
     (let slug = trim input
      in if \<not> test slug_re slug then Inl (SlugFormat input) else Inr slug)"

text \<open>The message of each thrown error.\<close>

fun message :: "error \<Rightarrow> jsstring" where
  "message (MissingEnv name) = js ''Missing required env: '' @ js name"
| "message (SlugFormat input) =
     js ''APP_SLUG must match /^[a-z0-9][a-z0-9-]*$/ (lowercase, digits, hyphen). Got: ''
     @ QuoteJSONString input"
| "message ProductNameEmpty = js ''APP_PRODUCT_NAME cannot be empty''"
| "message (PatternNotFound what re) = js ''Pattern not found for '' @ js what @ js '': '' @ js re"
| "message e = []"

text \<open>The constants that \<^verbatim>\<open>main\<close> resolves before it calls the handlers (its lines 114 to 120).\<close>

record identity =
  appSlug :: jsstring
  productName :: jsstring
  appId :: jsstring
  packageName :: jsstring
  desktopFile :: jsstring

definition resolveIdentity :: "env \<Rightarrow> error + identity" where
  "resolveIdentity env =
     (case requireEnv env ''APP_SLUG'' of
        Inl e \<Rightarrow> Inl e
      | Inr raw_slug \<Rightarrow>
     (case sanitizeSlug raw_slug of
        Inl e \<Rightarrow> Inl e
      | Inr slug \<Rightarrow>
     (case requireEnv env ''APP_PRODUCT_NAME'' of
        Inl e \<Rightarrow> Inl e
      | Inr raw_name \<Rightarrow>
          if trim raw_name = [] then Inl ProductNameEmpty
          else Inr \<lparr>appSlug = slug,
                    productName = trim raw_name,
                    appId = trim (case env ''APP_ID'' of None \<Rightarrow> js ''dev.sun.'' @ slug | Some v \<Rightarrow> v),
                    packageName =
                      trim (case env ''APP_PACKAGE_NAME'' of None \<Rightarrow> slug @ js ''-browser'' | Some v \<Rightarrow> v),
                    desktopFile =
                      trim (case env ''DESKTOP_FILE'' of None \<Rightarrow> slug @ js ''.desktop'' | Some v \<Rightarrow> v)\<rparr>)))"

subsection \<open>Files\<close>

text \<open>
  The files under the working directory, by their path relative to it, and the log of the
  file operations the program has attempted.
\<close>

datatype io_event = ReadFile string | WriteFile string jsstring

record world =
  files :: "string \<Rightarrow> jsstring option"
  trace :: "io_event list"

definition readFileSync :: "string \<Rightarrow> world \<Rightarrow> (error + jsstring) \<times> world" where
  "readFileSync path w =
     (case files w path of
        None \<Rightarrow> (Inl (FileNotFound path), w\<lparr>trace := trace w @ [ReadFile path]\<rparr>)
      | Some content \<Rightarrow> (Inr content, w\<lparr>trace := trace w @ [ReadFile path]\<rparr>))"

definition writeFileSync :: "string \<Rightarrow> jsstring \<Rightarrow> world \<Rightarrow> world" where
  "writeFileSync path content w =
     w\<lparr>files := (files w)(path \<mapsto> content), trace := trace w @ [WriteFile path content]\<rparr>"

record patch_result =
  file_path :: string
  changed :: bool

definition writeIfChanged :: "string \<Rightarrow> jsstring \<Rightarrow> world \<Rightarrow> (error + patch_result) \<times> world" where
  "writeIfChanged absPath next w =
     (case readFileSync absPath w of
        (Inl e, w1) \<Rightarrow> (Inl e, w1)
      | (Inr prev, w1) \<Rightarrow>
          if prev = next then (Inr \<lparr>file_path = absPath, changed = False\<rparr>, w1)
          else (Inr \<lparr>file_path = absPath, changed = True\<rparr>, writeFileSync absPath next w1))"

subsection \<open>The text patcher\<close>

definition replaceOrThrow :: "jsstring \<Rightarrow> regexp \<Rightarrow> jsstring \<Rightarrow> string \<Rightarrow> error + jsstring" where
  "replaceOrThrow content re replacement what =
     (if \<not> test re content then Inl (PatternNotFound what (source re))
      else Inr (replace re content replacement))"

subsection \<open>The handlers\<close>

text \<open>
  Each handler reads its file, computes the new content and hands it to \<^verbatim>\<open>writeIfChanged\<close>; the
  function named \<open>\<dots>_content\<close> is the computation between the two.
\<close>

definition patchPackageJson_content :: "jsstring \<Rightarrow> jsstring \<Rightarrow> jsstring \<Rightarrow> error + jsstring" where
  "patchPackageJson_content package_name product_name text =
     (case JSON_parse text of
        Inl e \<Rightarrow> Inl e
      | Inr pkg \<Rightarrow>
     (case set_property pkg (js ''name'') (JString package_name) of
        Inl e \<Rightarrow> Inl e
      | Inr pkg1 \<Rightarrow>
     (case set_property pkg1 (js ''productName'') (JString product_name) of
        Inl e \<Rightarrow> Inl e
      | Inr pkg2 \<Rightarrow> Inr (JSON_stringify pkg2 @ [10]))))"

definition patchPackageJson :: "jsstring \<Rightarrow> jsstring \<Rightarrow> world \<Rightarrow> (error + patch_result) \<times> world" where
  "patchPackageJson package_name product_name w =
     (case readFileSync ''package.json'' w of
        (Inl e, w1) \<Rightarrow> (Inl e, w1)
      | (Inr text, w1) \<Rightarrow>
          (case patchPackageJson_content package_name product_name text of
             Inl e \<Rightarrow> (Inl e, w1)
           | Inr next \<Rightarrow> writeIfChanged ''package.json'' next w1))"

text \<open>The replacer function of the two \<^verbatim>\<open>executableName\<close> rewrites.\<close>

definition keep_quotes :: "jsstring \<Rightarrow> captures \<Rightarrow> jsstring" where
  "keep_quotes executable_name caps =
     cap_text caps 1 @ cap_text caps 2 @ executable_name @ cap_text caps 4"

definition ensureLinuxExecutableName :: "jsstring \<Rightarrow> jsstring \<Rightarrow> error + jsstring" where
  \<open>ensureLinuxExecutableName builderTs executable_name =
     (if test linux_test_re builderTs
      then Inr (replace_with linux_re builderTs (keep_quotes executable_name))
      else replaceOrThrow builderTs linux_insert_re
             (js ''$1    executableName: "'' @ executable_name @ js ''",'' @ [10])
             ''electron-builder linux.executableName insertion'')\<close>

text \<open>
  Lines 74 to 80 of \<^verbatim>\<open>patchElectronBuilderTs\<close>: the rewrite of the Windows \<^verbatim>\<open>executableName\<close>,
  under its own test.
\<close>

definition alignWinExecutableName :: "jsstring \<Rightarrow> jsstring \<Rightarrow> jsstring" where
  "alignWinExecutableName content executable_name =
     (if test win_test_re content
      then replace_with win_re content (keep_quotes executable_name)
      else content)"

definition patchElectronBuilderTs_content ::
  "jsstring \<Rightarrow> jsstring \<Rightarrow> jsstring \<Rightarrow> jsstring \<Rightarrow> error + jsstring" where
  \<open>patchElectronBuilderTs_content app_id product_name executable_name content =
     (case replaceOrThrow content appId_re (js ''$1"'' @ app_id @ js ''"$4'') ''electron-builder appId'' of
        Inl e \<Rightarrow> Inl e
      | Inr content1 \<Rightarrow>
     (case replaceOrThrow content1 productName_re (js ''$1"'' @ product_name @ js ''"$4'')
             ''electron-builder productName'' of
        Inl e \<Rightarrow> Inl e
      | Inr content2 \<Rightarrow>
          ensureLinuxExecutableName (alignWinExecutableName content2 executable_name)
            executable_name))\<close>

definition patchElectronBuilderTs ::
  "jsstring \<Rightarrow> jsstring \<Rightarrow> jsstring \<Rightarrow> world \<Rightarrow> (error + patch_result) \<times> world" where
  "patchElectronBuilderTs app_id product_name executable_name w =
     (case readFileSync ''electron-builder.ts'' w of
        (Inl e, w1) \<Rightarrow> (Inl e, w1)
      | (Inr content, w1) \<Rightarrow>
          (case patchElectronBuilderTs_content app_id product_name executable_name content of
             Inl e \<Rightarrow> (Inl e, w1)
           | Inr next \<Rightarrow> writeIfChanged ''electron-builder.ts'' next w1))"

definition patchDefaultBrowserController_content :: "jsstring \<Rightarrow> jsstring \<Rightarrow> error + jsstring" where
  "patchDefaultBrowserController_content desktop_file content =
     replaceOrThrow content xdg_re
       (js ''xdg-settings set default-web-browser '' @ desktop_file)
       ''linux default browser desktop file''"

definition patchDefaultBrowserController :: "jsstring \<Rightarrow> world \<Rightarrow> (error + patch_result) \<times> world" where
  "patchDefaultBrowserController desktop_file w =
     (case readFileSync ''src/main/controllers/default-browser-controller/index.ts'' w of
        (Inl e, w1) \<Rightarrow> (Inl e, w1)
      | (Inr content, w1) \<Rightarrow>
          (case patchDefaultBrowserController_content desktop_file content of
             Inl e \<Rightarrow> (Inl e, w1)
           | Inr next \<Rightarrow>
               writeIfChanged ''src/main/controllers/default-browser-controller/index.ts'' next w1))"

definition banner :: jsstring where
  "banner = js ''--- Flow Browser ---''"

definition patchMainHeader_content :: "jsstring \<Rightarrow> jsstring \<Rightarrow> jsstring" where
  "patchMainHeader_content product_name content =
     (if str_includes content banner
      then replaceAll content banner (js ''--- '' @ product_name @ js '' ---'')
      else content)"

definition patchMainHeader :: "jsstring \<Rightarrow> world \<Rightarrow> (error + patch_result) \<times> world" where
  "patchMainHeader product_name w =
     (case readFileSync ''src/main/index.ts'' w of
        (Inl e, w1) \<Rightarrow> (Inl e, w1)
      | (Inr content, w1) \<Rightarrow>
          writeIfChanged ''src/main/index.ts'' (patchMainHeader_content product_name content) w1)"

subsection \<open>The run\<close>

text \<open>
  \<^verbatim>\<open>main\<close>: the validation, then the four handlers in their order. An error ends the run where
  it is thrown and leaves the files as they are at that moment. The result of a run that ends
  normally is the list \<^verbatim>\<open>results\<close>, from which the lines printed at the end are computed.
\<close>

definition main :: "env \<Rightarrow> world \<Rightarrow> (error + patch_result list) \<times> world" where
  "main env w =
     (case resolveIdentity env of
        Inl e \<Rightarrow> (Inl e, w)
      | Inr cfg \<Rightarrow>
     (case patchPackageJson (packageName cfg) (productName cfg) w of
        (Inl e, w1) \<Rightarrow> (Inl e, w1)
      | (Inr r1, w1) \<Rightarrow>
     (case patchElectronBuilderTs (appId cfg) (productName cfg) (appSlug cfg) w1 of
        (Inl e, w2) \<Rightarrow> (Inl e, w2)
      | (Inr r2, w2) \<Rightarrow>
     (case patchDefaultBrowserController (desktopFile cfg) w2 of
        (Inl e, w3) \<Rightarrow> (Inl e, w3)
      | (Inr r3, w3) \<Rightarrow>
     (case patchMainHeader (productName cfg) w3 of
        (Inl e, w4) \<Rightarrow> (Inl e, w4)
      | (Inr r4, w4) \<Rightarrow> (Inr [r1, r2, r3, r4], w4))))))"

section \<open>The words of the specification\<close>

text \<open>
  The slug format as the specification words it: lowercase letters, digits and hyphens, the
  first character alphanumeric. It is compared below with what \<^verbatim>\<open>sanitizeSlug\<close> tests.
\<close>

definition slug_shape :: "jsstring \<Rightarrow> bool" where
  "slug_shape s \<longleftrightarrow>
     s \<noteq> [] \<and> ((97 \<le> hd s \<and> hd s \<le> 122) \<or> (48 \<le> hd s \<and> hd s \<le> 57)) \<and>
     list_all (\<lambda>c. (97 \<le> c \<and> c \<le> 122) \<or> (48 \<le> c \<and> c \<le> 57) \<or> c = 45) (tl s)"

text \<open>
  A code unit that QuoteJSONString copies as it is: no control character, quote, backslash
  or surrogate.
\<close>

definition plain_unit :: "nat \<Rightarrow> bool" where
  "plain_unit c \<longleftrightarrow> 32 \<le> c \<and> c \<noteq> 34 \<and> c \<noteq> 92 \<and> (c < 55296 \<or> 57343 < c)"

text \<open>
  ``Replaces all literal occurrences of the banner'': the occurrences are taken from left to
  right, and the search goes on after each one.
\<close>

function replace_occurrences :: "jsstring \<Rightarrow> jsstring \<Rightarrow> jsstring \<Rightarrow> jsstring" where
  "replace_occurrences w new s =
     (if s = [] \<or> w = [] then s
      else if take (length w) s = w then new @ replace_occurrences w new (drop (length w) s)
      else hd s # replace_occurrences w new (tl s))"
  by pat_completeness auto
termination
  by (relation "measure (\<lambda>(w, new, s). length s)") auto

text \<open>The three quote characters.\<close>

definition is_quote :: "nat \<Rightarrow> bool" where
  "is_quote c \<longleftrightarrow> c = 34 \<or> c = 39 \<or> c = 96"

text \<open>
  The shapes of the builder configuration that the claims speak of. In \<open>exec_field_after wb kw s\<close>
  the text \<open>kw\<close> (at a word boundary when \<open>wb\<close>), whitespace and an opening brace are followed,
  anywhere later in \<open>s\<close>, by the word \<^verbatim>\<open>executableName:\<close>, whitespace and a quote character. In
  \<open>field_rewritten wb kw name s s'\<close> that quote opens a non-empty value without quote characters
  that the same quote closes, and \<open>s'\<close> is \<open>s\<close> with this value replaced by \<open>name\<close>. Code unit 123
  is the opening brace and 10 the line feed.
\<close>

definition exec_field_after :: "bool \<Rightarrow> jsstring \<Rightarrow> jsstring \<Rightarrow> bool" where
  "exec_field_after wb kw s \<longleftrightarrow>
     (\<exists>pre ws mid ws2 q post.
        s = pre @ kw @ ws @ js ''{'' @ mid @ js ''executableName:'' @ ws2 @ q # post \<and>
        (wb \<longrightarrow> pre = [] \<or> \<not> is_word (last pre)) \<and>
        list_all is_space ws \<and> \<not> is_word (last (js ''{'' @ mid)) \<and> list_all is_space ws2 \<and>
        is_quote q)"

definition field_rewritten :: "bool \<Rightarrow> jsstring \<Rightarrow> jsstring \<Rightarrow> jsstring \<Rightarrow> jsstring \<Rightarrow> bool" where
  "field_rewritten wb kw name s s' \<longleftrightarrow>
     (\<exists>pre ws mid ws2 q old post.
        s = pre @ kw @ ws @ js ''{'' @ mid @ js ''executableName:'' @ ws2 @ q # old @ q # post \<and>
        s' = pre @ kw @ ws @ js ''{'' @ mid @ js ''executableName:'' @ ws2 @ q # name @ q # post \<and>
        (wb \<longrightarrow> pre = [] \<or> \<not> is_word (last pre)) \<and>
        list_all is_space ws \<and> \<not> is_word (last (js ''{'' @ mid)) \<and> list_all is_space ws2 \<and>
        is_quote q \<and> old \<noteq> [] \<and> list_all (\<lambda>c. \<not> is_quote c) old)"

definition has_linux_block :: "jsstring \<Rightarrow> bool" where
  "has_linux_block s \<longleftrightarrow>
     (\<exists>pre ws post. s = pre @ js ''linux:'' @ ws @ [123] @ post \<and> list_all is_space ws)"

definition has_anchor :: "jsstring \<Rightarrow> bool" where
  "has_anchor s \<longleftrightarrow>
     (\<exists>pre ws ws' post. s = pre @ js ''linux:'' @ ws @ [123] @ ws' @ [10] @ post \<and>
        list_all is_space ws \<and> list_all is_space ws')"

text \<open>
  The \<^verbatim>\<open>linux:\<close> block and its field, for the patch of the Linux executable name. In
  \<open>first_block pre ws rest s\<close> the content \<open>s\<close> has, after \<open>pre\<close>, its first \<^verbatim>\<open>linux:\<close> that whitespace
  and an opening brace follow, and \<open>rest\<close> is what comes after the brace. In
  \<open>first_field mid ws2 q old post rest\<close> the text \<open>rest\<close> has, after \<open>mid\<close>, its first \<^verbatim>\<open>executableName:\<close>
  at a word boundary that whitespace and a non-empty value between two quotes \<open>q\<close> follow.
  \<open>inside_block mid\<close> says that no closing brace (code unit 125) in \<open>mid\<close> closes the block: each
  one closes a brace opened in \<open>mid\<close>.
\<close>

definition opens_block :: "jsstring \<Rightarrow> jsstring \<Rightarrow> jsstring \<Rightarrow> jsstring \<Rightarrow> bool" where
  "opens_block pre ws rest s \<longleftrightarrow> s = pre @ js ''linux:'' @ ws @ [123] @ rest \<and> list_all is_space ws"

definition first_block :: "jsstring \<Rightarrow> jsstring \<Rightarrow> jsstring \<Rightarrow> jsstring \<Rightarrow> bool" where
  "first_block pre ws rest s \<longleftrightarrow>
     opens_block pre ws rest s \<and>
     (\<forall>pre' ws' rest'. opens_block pre' ws' rest' s \<longrightarrow> length pre \<le> length pre')"

definition field_in :: "jsstring \<Rightarrow> jsstring \<Rightarrow> nat \<Rightarrow> jsstring \<Rightarrow> jsstring \<Rightarrow> jsstring \<Rightarrow> bool" where
  "field_in mid ws2 q old post rest \<longleftrightarrow>
     rest = mid @ js ''executableName:'' @ ws2 @ q # old @ q # post \<and>
     \<not> is_word (last (123 # mid)) \<and> list_all is_space ws2 \<and>
     is_quote q \<and> old \<noteq> [] \<and> list_all (\<lambda>c. \<not> is_quote c) old"

definition first_field :: "jsstring \<Rightarrow> jsstring \<Rightarrow> nat \<Rightarrow> jsstring \<Rightarrow> jsstring \<Rightarrow> jsstring \<Rightarrow> bool" where
  "first_field mid ws2 q old post rest \<longleftrightarrow>
     field_in mid ws2 q old post rest \<and>
     (\<forall>mid' ws2' q' old' post'. field_in mid' ws2' q' old' post' rest \<longrightarrow> length mid \<le> length mid')"

fun stays_open :: "nat \<Rightarrow> jsstring \<Rightarrow> bool" where
  "stays_open depth [] = True"
| "stays_open depth (c # cs) =
     (if c = 125 then 0 < depth \<and> stays_open (depth - 1) cs
      else if c = 123 then stays_open (depth + 1) cs
      else stays_open depth cs)"

definition inside_block :: "jsstring \<Rightarrow> bool" where
  "inside_block mid = stays_open 0 mid"

text \<open>
  What the rewrites of \<^verbatim>\<open>appId\<close> and \<^verbatim>\<open>productName\<close> do to a content: in \<open>id_field_rewritten kw v s s'\<close>
  the word \<open>kw\<close> at a word boundary, whitespace and a non-empty quoted value are in \<open>s\<close>, and \<open>s'\<close>
  has \<open>v\<close> between double quotes (code unit 34) in the place of the opening quote and the
  value, the closing quote staying where it was.
\<close>

definition id_field_rewritten :: "jsstring \<Rightarrow> jsstring \<Rightarrow> jsstring \<Rightarrow> jsstring \<Rightarrow> bool" where
  "id_field_rewritten kw v s s' \<longleftrightarrow>
     (\<exists>pre ws q old post.
        s = pre @ kw @ ws @ q # old @ q # post \<and>
        s' = pre @ kw @ ws @ 34 # v @ 34 # q # post \<and>
        (pre = [] \<or> \<not> is_word (last pre)) \<and> list_all is_space ws \<and>
        is_quote q \<and> old \<noteq> [] \<and> list_all (\<lambda>c. \<not> is_quote c) old)"

section \<open>Notions for the proofs\<close>

text \<open>
  \<open>seg s i j\<close> is the part of \<open>s\<close> from index \<open>i\<close> to \<open>j\<close>; \<open>span P s i j\<close> says that it lies in \<open>s\<close>
  and that \<open>P\<close> holds of every code unit in it. The other three say by indices what a regular
  expression of the program matches.
\<close>

definition seg :: "jsstring \<Rightarrow> nat \<Rightarrow> nat \<Rightarrow> jsstring" where
  "seg s i j = take (j - i) (drop i s)"

definition span :: "(nat \<Rightarrow> bool) \<Rightarrow> jsstring \<Rightarrow> nat \<Rightarrow> nat \<Rightarrow> bool" where
  "span P s i j \<longleftrightarrow> i \<le> j \<and> (\<forall>k. i \<le> k \<and> k < j \<longrightarrow> k < length s \<and> P (s ! k))"

definition head_at :: "jsstring \<Rightarrow> jsstring \<Rightarrow> jsstring \<Rightarrow> jsstring \<Rightarrow> nat \<Rightarrow> nat \<Rightarrow> bool" where
  "head_at kw ob en s i j \<longleftrightarrow>
     (\<exists>a b. looking_at s i kw \<and> span is_space s (i + length kw) a \<and> looking_at s a ob \<and>
        span (\<lambda>c. True) s (a + length ob) b \<and> at_boundary s b \<and> looking_at s b en \<and>
        span is_space s (b + length en) j)"

definition field_at :: "bool \<Rightarrow> jsstring \<Rightarrow> jsstring \<Rightarrow> nat \<Rightarrow> nat \<Rightarrow> captures \<Rightarrow> bool" where
  "field_at wb kw s i j' c' \<longleftrightarrow>
     (wb \<longrightarrow> at_boundary s i) \<and>
     (\<exists>j. head_at kw (js ''{'') (js ''executableName:'') s i j \<and>
          (j', c') \<in> set (run s quoted_value (j, (\<lambda>_. None)(1 \<mapsto> take (j - i) (drop i s)))))"

definition test_at :: "bool \<Rightarrow> jsstring \<Rightarrow> jsstring \<Rightarrow> nat \<Rightarrow> bool" where
  "test_at wb kw s i \<longleftrightarrow>
     (wb \<longrightarrow> at_boundary s i) \<and>
     (\<exists>j. head_at kw (js ''{'') (js ''executableName:'') s i j \<and> j < length s \<and> is_quote (s ! j))"

section \<open>Example inputs\<close>

text \<open>The environment of the specification's end-to-end scenario, and a small repository.\<close>

definition acme_env :: env where
  "acme_env = (\<lambda>name. None)(''APP_SLUG'' \<mapsto> js ''acme'', ''APP_PRODUCT_NAME'' \<mapsto> js ''Acme Browser'')"

definition template_builder :: jsstring where
  \<open>template_builder =
     js ''appId: "dev.sun.flow", productName: "Flow", linux: {'' @ [10] @ js ''}''\<close>

definition template_world :: world where
  \<open>template_world =
     \<lparr>files = (\<lambda>path. None)
        (''package.json'' \<mapsto> js ''{"name": "flow"}'',
         ''electron-builder.ts'' \<mapsto> template_builder,
         ''src/main/controllers/default-browser-controller/index.ts'' \<mapsto>
            js ''xdg-settings set default-web-browser flow.desktop'',
         ''src/main/index.ts'' \<mapsto> js ''--- Flow Browser ---''),
      trace = []\<rparr>\<close>

text \<open>The repository after one run in that environment, and after a second run.\<close>

definition acme_manifest :: jsstring where
  \<open>acme_manifest =
     js ''{'' @ [10] @ js ''  "name": "acme-browser",'' @ [10]
     @ js ''  "productName": "Acme Browser"'' @ [10] @ js ''}'' @ [10]\<close>

definition acme_builder_once :: jsstring where
  \<open>acme_builder_once =
     js ''appId: "dev.sun.acme"", productName: "Acme Browser"", linux: {'' @ [10]
     @ js ''    executableName: "acme",'' @ [10] @ js ''}''\<close>

definition acme_builder_twice :: jsstring where
  \<open>acme_builder_twice =
     js ''appId: "dev.sun.acme""", productName: "Acme Browser""", linux: {'' @ [10]
     @ js ''    executableName: "acme",'' @ [10] @ js ''}''\<close>

definition acme_world_once :: world where
  "acme_world_once =
     \<lparr>files = (files template_world)
        (''package.json'' \<mapsto> acme_manifest,
         ''electron-builder.ts'' \<mapsto> acme_builder_once,
         ''src/main/controllers/default-browser-controller/index.ts'' \<mapsto>
            js ''xdg-settings set default-web-browser acme.desktop'',
         ''src/main/index.ts'' \<mapsto> js ''--- Acme Browser ---''),
      trace =
        [ReadFile ''package.json'', ReadFile ''package.json'', WriteFile ''package.json'' acme_manifest,
         ReadFile ''electron-builder.ts'', ReadFile ''electron-builder.ts'',
         WriteFile ''electron-builder.ts'' acme_builder_once,
         ReadFile ''src/main/controllers/default-browser-controller/index.ts'',
         ReadFile ''src/main/controllers/default-browser-controller/index.ts'',
         WriteFile ''src/main/controllers/default-browser-controller/index.ts''
           (js ''xdg-settings set default-web-browser acme.desktop''),
         ReadFile ''src/main/index.ts'', ReadFile ''src/main/index.ts'',
         WriteFile ''src/main/index.ts'' (js ''--- Acme Browser ---'')]\<rparr>"

definition acme_world_twice :: world where
  "acme_world_twice =
     \<lparr>files = (files acme_world_once)(''electron-builder.ts'' \<mapsto> acme_builder_twice),
      trace = trace acme_world_once @
        [ReadFile ''package.json'', ReadFile ''package.json'',
         ReadFile ''electron-builder.ts'', ReadFile ''electron-builder.ts'',
         WriteFile ''electron-builder.ts'' acme_builder_twice,
         ReadFile ''src/main/controllers/default-browser-controller/index.ts'',
         ReadFile ''src/main/controllers/default-browser-controller/index.ts'',
         ReadFile ''src/main/index.ts'', ReadFile ''src/main/index.ts'']\<rparr>"

section \<open>Facts about the matcher\<close>

lemmas engine_defs =
  Let_def exec_def test_def replace_def replace_with_def replaceOrThrow_def looking_at_def
  at_boundary_def word_at_def class_matches_def is_space_def is_word_def is_digit_def
  cap_text_def quote_atoms_def quoted_value_def js_def keep_quotes_def

lemma first_match_None_iff:
  "first_match s r is = None \<longleftrightarrow> (\<forall>i\<in>set is. run s r (i, \<lambda>_. None) = [])"
  by (induction "is") (auto split: list.splits)

lemma first_match_SomeD:
  "first_match s r is = Some (i, j, c) \<Longrightarrow> i \<in> set is \<and> (j, c) \<in> set (run s r (i, \<lambda>_. None))"
  by (induction "is") (auto split: list.splits)

lemma test_iff: "test re s \<longleftrightarrow> (\<exists>i\<le>length s. run s (pattern re) (i, \<lambda>_. None) \<noteq> [])"
proof -
  have "set [0..<length s + 1] = {i. i \<le> length s}" by auto
  then show ?thesis
    unfolding test_def exec_def first_match_None_iff by blast
qed

lemma exec_SomeD:
  "exec r s = Some (i, j, c) \<Longrightarrow> i \<le> length s \<and> (j, c) \<in> set (run s r (i, \<lambda>_. None))"
proof -
  assume "exec r s = Some (i, j, c)"
  then have "i \<in> set [0..<length s + 1]" "(j, c) \<in> set (run s r (i, \<lambda>_. None))"
    unfolding exec_def by (blast dest: first_match_SomeD)+
  then show ?thesis by auto
qed

lemma in_run_Lit:
  "(j, c') \<in> set (run s (Lit w) (i, c)) \<longleftrightarrow> looking_at s i w \<and> j = i + length w \<and> c' = c"
  by auto

lemma in_run_Class:
  "(j, c') \<in> set (run s (Class p as) (i, c)) \<longleftrightarrow>
     i < length s \<and> class_matches p as (s ! i) \<and> j = i + 1 \<and> c' = c"
  by auto

lemma in_run_WordBoundary:
  "(j, c') \<in> set (run s WordBoundary (i, c)) \<longleftrightarrow> at_boundary s i \<and> j = i \<and> c' = c"
  by auto

lemma in_run_InputStart:
  "(j, c') \<in> set (run s InputStart (i, c)) \<longleftrightarrow> i = 0 \<and> j = 0 \<and> c' = c"
  by auto

lemma in_run_InputEnd:
  "(j, c') \<in> set (run s InputEnd (i, c)) \<longleftrightarrow> i = length s \<and> j = i \<and> c' = c"
  by auto

lemma in_run_Seq:
  "x \<in> set (run s (Seq r1 r2) st) \<longleftrightarrow>
     (\<exists>k c1. (k, c1) \<in> set (run s r1 st) \<and> x \<in> set (run s r2 (k, c1)))"
  by auto

lemma in_run_Group:
  "(j, c') \<in> set (run s (Group n r) (i, c)) \<longleftrightarrow>
     (\<exists>c0. (j, c0) \<in> set (run s r (i, c)) \<and> c' = c0(n \<mapsto> take (j - i) (drop i s)))"
  by (force simp: image_iff)

lemma in_run_Backref:
  "(j, c') \<in> set (run s (Backref n) (i, c)) \<longleftrightarrow>
     c' = c \<and> (case c n of None \<Rightarrow> j = i | Some w \<Rightarrow> looking_at s i w \<and> j = i + length w)"
  by (auto split: option.splits)


lemma run_Star_Class_unfold:
  "run s (Star g (Class p as)) (i, c) =
     (if i < length s \<and> class_matches p as (s ! i)
      then (if g then run s (Star g (Class p as)) (Suc i, c) @ [(i, c)]
            else (i, c) # run s (Star g (Class p as)) (Suc i, c))
      else [(i, c)])"
  by (subst run.simps(9)) (auto simp del: run.simps(9) simp add: Let_def)

lemmas in_run =
  in_run_Lit in_run_Class in_run_WordBoundary in_run_InputStart in_run_InputEnd
  in_run_Seq in_run_Group in_run_Backref

lemma in_run_Star_Class:
  "(j, c') \<in> set (run s (Star g (Class p as)) (i, c)) \<longleftrightarrow>
     c' = c \<and> i \<le> j \<and> (\<forall>k. i \<le> k \<and> k < j \<longrightarrow> k < length s \<and> class_matches p as (s ! k))"
proof (induction "length s - i" arbitrary: i)
  case 0
  then have "run s (Star g (Class p as)) (i, c) = [(i, c)]"
    by (subst run_Star_Class_unfold) simp
  moreover have "\<not> i < length s" using 0 by simp
  ultimately show ?case by (auto simp del: run.simps)
next
  case (Suc n)
  show ?case
  proof (cases "i < length s \<and> class_matches p as (s ! i)")
    case True
    then have step: "set (run s (Star g (Class p as)) (i, c))
        = insert (i, c) (set (run s (Star g (Class p as)) (Suc i, c)))"
      by (subst run_Star_Class_unfold) (auto simp del: run.simps)
    have ih: "(j, c') \<in> set (run s (Star g (Class p as)) (Suc i, c)) \<longleftrightarrow>
       c' = c \<and> Suc i \<le> j \<and> (\<forall>k. Suc i \<le> k \<and> k < j \<longrightarrow> k < length s \<and> class_matches p as (s ! k))"
      using Suc.hyps(1) [of "Suc i"] Suc.hyps(2) by simp
    have all: "(\<forall>k. i \<le> k \<and> k < j \<longrightarrow> k < length s \<and> class_matches p as (s ! k))
       \<longleftrightarrow> (\<forall>k. Suc i \<le> k \<and> k < j \<longrightarrow> k < length s \<and> class_matches p as (s ! k))"
      using True by (metis Suc_leI le_neq_implies_less Suc_le_lessD less_imp_le_nat)
    show ?thesis
    proof (cases "j = i")
      case True
      then show ?thesis unfolding step using ih by (auto simp del: run.simps)
    next
      case False
      then show ?thesis unfolding step all using ih by (auto simp del: run.simps)
    qed
  next
    case False
    then have "run s (Star g (Class p as)) (i, c) = [(i, c)]"
      by (subst run_Star_Class_unfold) simp
    then show ?thesis using False by (auto simp del: run.simps) 
  qed
qed


lemma nonempty_iff_member: "xs \<noteq> [] \<longleftrightarrow> (\<exists>j c. (j, c) \<in> set xs)"
  by (cases xs) auto

lemma list_all_tl_nth:
  "list_all P (tl s) \<longleftrightarrow> (\<forall>k. Suc 0 \<le> k \<and> k < length s \<longrightarrow> P (s ! k))"
proof (cases s)
  case Nil
  then show ?thesis by simp
next
  case (Cons a t)
  have "(\<forall>k. Suc 0 \<le> k \<and> k < Suc (length t) \<longrightarrow> P ((a # t) ! k)) \<longleftrightarrow> (\<forall>n < length t. P (t ! n))"
  proof (intro iffI allI impI)
    fix n assume a: "\<forall>k. Suc 0 \<le> k \<and> k < Suc (length t) \<longrightarrow> P ((a # t) ! k)" and "n < length t"
    then show "P (t ! n)" using a [rule_format, of "Suc n"] by simp
  next
    fix k assume a: "\<forall>n<length t. P (t ! n)" and k: "Suc 0 \<le> k \<and> k < Suc (length t)"
    then obtain n where "k = Suc n" by (cases k) auto
    then show "P ((a # t) ! k)" using a k by simp
  qed
  then show ?thesis using Cons by (simp add: list_all_length)
qed



lemma test_slug_re: "test slug_re s \<longleftrightarrow> slug_shape s"
proof -
  have "test slug_re s \<longleftrightarrow>
      0 < length s \<and> class_matches True [CRange 97 122, CRange 48 57] (s ! 0) \<and>
      (\<forall>k. Suc 0 \<le> k \<and> k < length s \<longrightarrow>
         class_matches True [CRange 97 122, CRange 48 57, CChar 45] (s ! k))"
    unfolding test_iff nonempty_iff_member
    by (auto simp: slug_re_def in_run in_run_Star_Class Suc_le_eq simp del: run.simps)
  also have "\<dots> \<longleftrightarrow> slug_shape s"
    unfolding slug_shape_def list_all_tl_nth
    by (cases s) (auto simp: class_matches_def)
  finally show ?thesis .
qed

lemma sanitizeSlug_eq:
  "sanitizeSlug input = (if slug_shape (trim input) then Inr (trim input) else Inl (SlugFormat input))"
  by (simp add: sanitizeSlug_def test_slug_re Let_def)


lemma slug_shape_chars:
  "slug_shape s \<Longrightarrow> c \<in> set s \<Longrightarrow> (97 \<le> c \<and> c \<le> 122) \<or> (48 \<le> c \<and> c \<le> 57) \<or> c = 45"
  by (cases s) (auto simp: slug_shape_def list_all_iff)

lemma slug_shape_no_space: "slug_shape s \<Longrightarrow> c \<in> set s \<Longrightarrow> \<not> is_space c"
  by (drule (1) slug_shape_chars) (auto simp: is_space_def)

lemma trim_id: "s \<noteq> [] \<Longrightarrow> \<not> is_space (hd s) \<Longrightarrow> \<not> is_space (last s) \<Longrightarrow> trim s = s"
proof -
  assume a: "s \<noteq> []" "\<not> is_space (hd s)" "\<not> is_space (last s)"
  then have "dropWhile is_space s = s" by (cases s) auto
  moreover have "dropWhile is_space (rev s) = rev s"
    using a by (cases "rev s") (auto simp: hd_rev dest: arg_cong [where f = hd])
  ultimately show ?thesis by (simp add: trim_def)
qed

lemma trim_spaces: "list_all is_space v \<Longrightarrow> trim v = []"
proof -
  assume "list_all is_space v"
  then have d: "dropWhile is_space v = []" by (induction v) auto
  show ?thesis unfolding trim_def d by simp
qed

lemma trim_slug_shape: "slug_shape s \<Longrightarrow> trim s = s"
proof (rule trim_id)
  assume a: "slug_shape s"
  then show "s \<noteq> []" by (simp add: slug_shape_def)
  then show "\<not> is_space (hd s)" "\<not> is_space (last s)"
    using a slug_shape_no_space [of s] by auto
qed

lemma resolveIdentity_slug: "resolveIdentity env = Inr cfg \<Longrightarrow> slug_shape (appSlug cfg)"
  by (auto simp: resolveIdentity_def sanitizeSlug_eq split: sum.splits if_splits)

lemma trim_defaults:
  assumes "slug_shape s"
  shows "trim (js ''dev.sun.'' @ s) = js ''dev.sun.'' @ s"
    and "trim (s @ js ''-browser'') = s @ js ''-browser''"
    and "trim (s @ js ''.desktop'') = s @ js ''.desktop''"
proof -
  have ne: "s \<noteq> []" and h: "\<not> is_space (hd s)" and l: "\<not> is_space (last s)"
    using assms slug_shape_no_space [of s] by (auto simp: slug_shape_def)
  show "trim (js ''dev.sun.'' @ s) = js ''dev.sun.'' @ s"
    using ne l by (intro trim_id) (auto simp: js_def is_space_def)
  show "trim (s @ js ''-browser'') = s @ js ''-browser''"
    using ne h by (intro trim_id) (auto simp: js_def is_space_def)
  show "trim (s @ js ''.desktop'') = s @ js ''.desktop''"
    using ne h by (intro trim_id) (auto simp: js_def is_space_def)
qed

lemmas validate_defs =
  resolveIdentity_def requireEnv_def sanitizeSlug_eq slug_shape_def trim_def is_space_def js_def

lemma quote_units_plain: "list_all plain_unit s \<Longrightarrow> quote_units s = s"
  by (induction s)
    (auto simp: plain_unit_def is_leading_surrogate_def is_trailing_surrogate_def)

section \<open>Facts about the replacements\<close>

declare replace_occurrences.simps [simp del] replaceAll_from.simps [simp del]

lemma getSubstitution_plain:
  "36 \<notin> set t \<Longrightarrow> getSubstitution matched preceding following caps m t = t"
proof (induction t)
  case Nil
  then show ?case by simp
next
  case (Cons c t)
  then show ?case by (cases t) auto
qed

lemma replace_occurrences_short:
  "length s < length w \<Longrightarrow> replace_occurrences w new s = s"
proof (induction s)
  case Nil
  then show ?case by (subst replace_occurrences.simps) simp
next
  case (Cons c s)
  then have "length (take (length w) (c # s)) \<noteq> length w" by simp
  then have "take (length w) (c # s) \<noteq> w" by metis
  moreover have "length s < length w" using Cons.prems by simp
  ultimately show ?case using Cons.IH by (subst replace_occurrences.simps) simp
qed

lemma replaceAll_from_plain:
  assumes "36 \<notin> set new" "w \<noteq> []"
  shows "replaceAll_from s w new i = replace_occurrences w new (drop i s)"
proof (induction "length s - i" arbitrary: i rule: less_induct)
  case less
  show ?case
  proof (cases "length s < i + length w")
    case True
    then have "length (drop i s) < length w" using assms(2) by (cases w) auto
    then have "replace_occurrences w new (drop i s) = drop i s"
      by (rule replace_occurrences_short)
    with True show ?thesis by (subst replaceAll_from.simps) simp
  next
    case False
    then have i: "i < length s" using assms(2) by (cases w) auto
    then have ne: "drop i s \<noteq> []" by simp
    show ?thesis
    proof (cases "looking_at s i w")
      case True
      have "length s - (i + length w) < length s - i" using i assms(2) by (cases w) auto
      then have ih: "replaceAll_from s w new (i + length w)
          = replace_occurrences w new (drop (i + length w) s)"
        by (rule less)
      have "replaceAll_from s w new i = new @ replaceAll_from s w new (i + length w)"
        using True False assms by (subst replaceAll_from.simps) (simp add: getSubstitution_plain)
      moreover have "replace_occurrences w new (drop i s)
          = new @ replace_occurrences w new (drop (length w) (drop i s))"
        using True ne assms(2) by (subst replace_occurrences.simps) (simp add: looking_at_def)
      ultimately show ?thesis using ih by (simp add: add.commute)
    next
      case no: False
      have "length s - Suc i < length s - i" using i by simp
      then have ih: "replaceAll_from s w new (Suc i) = replace_occurrences w new (drop (Suc i) s)"
        by (rule less)
      have "replaceAll_from s w new i = s ! i # replaceAll_from s w new (Suc i)"
        using no False by (subst replaceAll_from.simps) simp
      moreover have "replace_occurrences w new (drop i s)
          = hd (drop i s) # replace_occurrences w new (tl (drop i s))"
        using no ne assms(2) by (subst replace_occurrences.simps) (simp add: looking_at_def)
      moreover have "hd (drop i s) = s ! i" "tl (drop i s) = drop (Suc i) s"
        using i by (simp_all add: hd_drop_conv_nth drop_Suc tl_drop)
      ultimately show ?thesis using ih by simp
    qed
  qed
qed

lemma str_includes_iff: "str_includes s w \<longleftrightarrow> (\<exists>pre post. s = pre @ w @ post)"
proof
  assume "str_includes s w"
  then obtain i where "looking_at s i w"
    by (auto simp: str_includes_def list_ex_iff)
  then have "s = take i s @ w @ drop (length w) (drop i s)"
    unfolding looking_at_def by (metis append_take_drop_id)
  then show "\<exists>pre post. s = pre @ w @ post" by blast
next
  assume "\<exists>pre post. s = pre @ w @ post"
  then obtain pre post where s: "s = pre @ w @ post" by blast
  then have "looking_at s (length pre) w" by (simp add: looking_at_def)
  moreover have "length pre \<in> set [0..<length s + 1]" using s by auto
  ultimately show "str_includes s w"
    unfolding str_includes_def list_ex_iff by blast
qed

lemma replace_occurrences_absent:
  "\<not> (\<exists>pre post. s = pre @ w @ post) \<Longrightarrow> replace_occurrences w new s = s"
proof (induction s)
  case Nil
  then show ?case by (subst replace_occurrences.simps) simp
next
  case (Cons c s)
  have "take (length w) (c # s) \<noteq> w"
  proof
    assume "take (length w) (c # s) = w"
    then have "c # s = [] @ w @ drop (length w) (c # s)" by (metis append_Nil append_take_drop_id)
    with Cons.prems show False by blast
  qed
  moreover have "\<not> (\<exists>pre post. s = pre @ w @ post)"
  proof
    assume "\<exists>pre post. s = pre @ w @ post"
    then obtain pre post where "s = pre @ w @ post" by blast
    then have "c # s = (c # pre) @ w @ post" by simp
    with Cons.prems show False by blast
  qed
  ultimately show ?case using Cons.IH by (subst replace_occurrences.simps) simp
qed

lemma class_matches_simps:
  "class_matches True [CSpace] = is_space"
  "class_matches True [CSpace, CNotSpace] = (\<lambda>c. True)"
  "class_matches True quote_atoms = is_quote"
  "class_matches False quote_atoms = (\<lambda>c. \<not> is_quote c)"
  by (auto simp: class_matches_def quote_atoms_def is_quote_def fun_eq_iff)

lemma in_run_Star_span:
  "(j, c') \<in> set (run s (Star g (Class p as)) (i, c)) \<longleftrightarrow> c' = c \<and> span (class_matches p as) s i j"
  by (simp add: in_run_Star_Class span_def del: run.simps)

lemma looking_at_drop:
  assumes "looking_at s i w"
  shows "drop i s = w @ drop (i + length w) s"
proof -
  have "w @ drop (i + length w) s = take (length w) (drop i s) @ drop (length w) (drop i s)"
    using assms by (simp add: looking_at_def add.commute)
  also have "\<dots> = drop i s" by (rule append_take_drop_id)
  finally show ?thesis by simp
qed

lemma looking_at_bound:
  assumes "looking_at s i w" "w \<noteq> []"
  shows "i + length w \<le> length s"
proof -
  have "length (take (length w) (drop i s)) = length w"
    using assms(1) by (simp add: looking_at_def)
  then have "min (length s - i) (length w) = length w" by (simp add: min.commute)
  moreover have "0 < length w" using assms(2) by simp
  ultimately show ?thesis by arith
qed

lemma span_bound:
  assumes "span P s i j" "i \<le> length s"
  shows "j \<le> length s"
proof (cases "i = j")
  case True
  then show ?thesis using assms(2) by simp
next
  case False
  then have "i \<le> j - 1 \<and> j - 1 < j" using assms(1) by (auto simp: span_def)
  then have "j - 1 < length s" using assms(1) unfolding span_def by blast
  then show ?thesis by arith
qed

lemma span_drop:
  assumes "span P s i j" "i \<le> length s"
  shows "drop i s = seg s i j @ drop j s" and "list_all P (seg s i j)" and "length (seg s i j) = j - i"
proof -
  have j: "j \<le> length s" and ij: "i \<le> j" using assms span_bound by (auto simp: span_def)
  have "drop j s = drop (j - i) (drop i s)" using ij by simp
  then have "seg s i j @ drop j s = take (j - i) (drop i s) @ drop (j - i) (drop i s)"
    unfolding seg_def by (rule arg_cong)
  then show "drop i s = seg s i j @ drop j s"
    by (simp only: append_take_drop_id)
  show l: "length (seg s i j) = j - i" unfolding seg_def using j ij by simp
  show "list_all P (seg s i j)"
    unfolding list_all_length
  proof (intro allI impI)
    fix n assume "n < length (seg s i j)"
    then have n: "n < j - i" using l by simp
    then have "seg s i j ! n = s ! (i + n)" unfolding seg_def using j by simp
    moreover have "P (s ! (i + n))" using assms(1) n unfolding span_def by simp
    ultimately show "P (seg s i j ! n)" by simp
  qed
qed


lemma looking_at_append: "looking_at (p @ w @ r) (length p) w"
  by (simp add: looking_at_def)

lemma span_append:
  assumes "list_all P x"
  shows "span P (p @ x @ r) (length p) (length p + length x)"
  unfolding span_def
proof (intro conjI allI impI)
  fix k assume k: "length p \<le> k \<and> k < length p + length x"
  then have "(p @ (x @ r)) ! k = (x @ r) ! (k - length p)"
    by (simp add: nth_append)
  moreover have "k - length p < length x" using k by arith
  ultimately have "(p @ (x @ r)) ! k = (x @ r) ! (k - length p)" "k - length p < length x"
    by simp_all
  then have "(p @ x @ r) ! k = x ! (k - length p)"
    by (simp add: nth_append)
  moreover have "P (x ! (k - length p))"
    using assms \<open>k - length p < length x\<close> by (simp add: list_all_length)
  ultimately show "P ((p @ x @ r) ! k)" by simp
  show "k < length (p @ x @ r)" using k by simp
qed simp

lemma at_boundary_append:
  assumes "is_word c"
  shows "at_boundary (p @ c # r) (length p) \<longleftrightarrow> (p = [] \<or> \<not> is_word (last p))"
proof (cases "p = []")
  case True
  then show ?thesis using assms by (simp add: at_boundary_def word_at_def)
next
  case False
  then have "(p @ c # r) ! (length p - 1) = last p" "0 < length p"
    "length p - 1 < length (p @ c # r)"
    by (simp_all add: nth_append last_conv_nth)
  then show ?thesis using assms False
    by (simp add: at_boundary_def word_at_def)
qed

lemma getSubstitution_dollar1:
  assumes "36 \<notin> set rest" "rest \<noteq> []" "\<not> is_digit (hd rest)" "1 \<le> m"
  shows "getSubstitution ma p f caps m (36 # 49 # rest) = cap_text caps 1 @ rest"
  using assms by (cases rest) (auto simp: is_digit_def Let_def getSubstitution_plain)

lemma in_run_anchor:
  "(j, c') \<in> set (run s (Group n (Seq (Lit kw) (Seq (Star True space)
        (Seq (Lit ob) (Seq (Star True space) (Lit nl)))))) (i, c)) \<longleftrightarrow>
     (\<exists>a b. looking_at s i kw \<and> span is_space s (i + length kw) a \<and> looking_at s a ob \<and>
        span is_space s (a + length ob) b \<and> looking_at s b nl \<and> j = b + length nl \<and>
        c' = c(n \<mapsto> take (j - i) (drop i s)))"
  by (auto simp: in_run in_run_Star_span class_matches_simps simp del: run.simps)


lemma take_of_drop_eq:
  "drop i s = x @ r \<Longrightarrow> take (length x) (drop i s) = x"
  by simp

lemma anchor_decomp:
  assumes "looking_at s i kw" "span is_space s (i + length kw) a" "looking_at s a ob"
    "span is_space s (a + length ob) b" "looking_at s b nl" "kw \<noteq> []" "ob \<noteq> []"
  shows "\<exists>ws ws'. drop i s = kw @ ws @ ob @ ws' @ nl @ drop (b + length nl) s \<and>
           list_all is_space ws \<and> list_all is_space ws' \<and>
           take (b + length nl - i) (drop i s) = kw @ ws @ ob @ ws' @ nl \<and> i \<le> length s"
proof -
  have i: "i + length kw \<le> length s" using assms(1,6) by (rule looking_at_bound)
  have a: "a + length ob \<le> length s" using assms(3,7) by (rule looking_at_bound)
  let ?ws = "seg s (i + length kw) a" and ?ws' = "seg s (a + length ob) b"
  have 1: "drop i s = kw @ drop (i + length kw) s" using assms(1) by (rule looking_at_drop)
  have 2: "drop (i + length kw) s = ?ws @ drop a s" "list_all is_space ?ws"
    "length ?ws = a - (i + length kw)"
    using span_drop [OF assms(2) i] by auto
  have 3: "drop a s = ob @ drop (a + length ob) s" using assms(3) by (rule looking_at_drop)
  have 4: "drop (a + length ob) s = ?ws' @ drop b s" "list_all is_space ?ws'"
    "length ?ws' = b - (a + length ob)"
    using span_drop [OF assms(4) a] by auto
  have 5: "drop b s = nl @ drop (b + length nl) s" using assms(5) by (rule looking_at_drop)
  have d: "drop i s = (kw @ ?ws @ ob @ ?ws' @ nl) @ drop (b + length nl) s"
    using 1 2(1) 3 4(1) 5 by simp
  have le: "i + length kw \<le> a" "a + length ob \<le> b"
    using assms(2,4) by (auto simp: span_def)
  have "length (kw @ ?ws @ ob @ ?ws' @ nl) = b + length nl - i"
    using 2(3) 4(3) le by simp
  then have "take (b + length nl - i) (drop i s) = kw @ ?ws @ ob @ ?ws' @ nl"
    using take_of_drop_eq [OF d] by simp
  then show ?thesis using d 2(2) 4(2) i by auto
qed

lemma pattern_linux_insert_re:
  "pattern linux_insert_re = Group 1 (Seq (Lit (js ''linux:'')) (Seq (Star True space)
        (Seq (Lit (js ''{'')) (Seq (Star True space) (Lit [10])))))"
  by (simp add: linux_insert_re_def)

lemma js_nonempty [simp]: "js ''linux:'' \<noteq> []" "js ''{'' \<noteq> []" "js ''win:'' \<noteq> []"
  "js ''executableName:'' \<noteq> []"
  by (simp_all add: js_def)

lemma test_linux_insert_iff: "test linux_insert_re s \<longleftrightarrow> has_anchor s"
proof
  assume "test linux_insert_re s"
  then obtain i j c' where i: "i \<le> length s"
    and m: "(j, c') \<in> set (run s (pattern linux_insert_re) (i, \<lambda>_. None))"
    unfolding test_iff nonempty_iff_member by blast
  from m obtain a b where ab: "looking_at s i (js ''linux:'')"
    "span is_space s (i + length (js ''linux:'')) a" "looking_at s a (js ''{'')"
    "span is_space s (a + length (js ''{'')) b" "looking_at s b [10]"
    unfolding pattern_linux_insert_re in_run_anchor by blast
  from anchor_decomp [OF ab] obtain ws ws' where
    d: "drop i s = js ''linux:'' @ ws @ js ''{'' @ ws' @ [10] @ drop (b + length [10::nat]) s"
      "list_all is_space ws" "list_all is_space ws'"
    by auto
  have "s = take i s @ drop i s" by simp
  then have "s = take i s @ js ''linux:'' @ ws @ [123] @ ws' @ [10] @ drop (b + 1) s"
    using d(1) by (simp add: js_def)
  then show "has_anchor s" unfolding has_anchor_def using d(2,3) by blast
next
  assume "has_anchor s"
  then obtain pre ws ws' post where
    s: "s = pre @ js ''linux:'' @ ws @ [123] @ ws' @ [10] @ post"
    and w: "list_all is_space ws" "list_all is_space ws'"
    unfolding has_anchor_def by blast
  let ?i = "length pre"
  let ?a = "?i + length (js ''linux:'') + length ws"
  let ?b = "?a + length (js ''{'') + length ws'"
  have 1: "looking_at s ?i (js ''linux:'')" unfolding s by (rule looking_at_append)
  have "span is_space ((pre @ js ''linux:'') @ ws @ ([123] @ ws' @ [10] @ post))
      (length (pre @ js ''linux:'')) (length (pre @ js ''linux:'') + length ws)"
    using w(1) by (rule span_append)
  then have 2: "span is_space s (?i + length (js ''linux:'')) ?a" unfolding s by simp
  have "looking_at ((pre @ js ''linux:'' @ ws) @ js ''{'' @ (ws' @ [10] @ post))
      (length (pre @ js ''linux:'' @ ws)) (js ''{'')"
    by (rule looking_at_append)
  then have 3: "looking_at s ?a (js ''{'')" unfolding s by (simp add: js_def add.assoc)
  have "span is_space ((pre @ js ''linux:'' @ ws @ [123]) @ ws' @ ([10] @ post))
      (length (pre @ js ''linux:'' @ ws @ [123])) (length (pre @ js ''linux:'' @ ws @ [123]) + length ws')"
    using w(2) by (rule span_append)
  then have 4: "span is_space s (?a + length (js ''{'')) ?b" unfolding s by (simp add: js_def add.assoc)
  have "looking_at ((pre @ js ''linux:'' @ ws @ [123] @ ws') @ [10] @ post)
      (length (pre @ js ''linux:'' @ ws @ [123] @ ws')) [10]"
    by (rule looking_at_append)
  then have 5: "looking_at s ?b [10]" unfolding s by (simp add: js_def add.assoc)
  have "(?b + length [10::nat], (\<lambda>_. None)(1 \<mapsto> take (?b + length [10::nat] - ?i) (drop ?i s)))
      \<in> set (run s (pattern linux_insert_re) (?i, \<lambda>_. None))"
    unfolding pattern_linux_insert_re in_run_anchor using 1 2 3 4 5 by blast
  moreover have "?i \<le> length s" unfolding s by simp
  ultimately show "test linux_insert_re s"
    unfolding test_iff nonempty_iff_member by blast
qed


lemma in_run_head:
  "(j, c') \<in> set (run s (Seq (Lit kw) (Seq (Star True space) (Seq (Lit ob)
        (Seq (Star False anything) (Seq WordBoundary (Seq (Lit en) (Star True space))))))) (i, c))
   \<longleftrightarrow> c' = c \<and> head_at kw ob en s i j"
  unfolding head_at_def
  by (auto simp: in_run in_run_Star_span class_matches_simps simp del: run.simps)

lemma in_run_head_test:
  "(j', c') \<in> set (run s (Seq (Lit kw) (Seq (Star True space) (Seq (Lit ob)
        (Seq (Star False anything) (Seq WordBoundary (Seq (Lit en)
        (Seq (Star True space) (Class True quote_atoms)))))))) (i, c))
   \<longleftrightarrow> c' = c \<and> (\<exists>j. head_at kw ob en s i j \<and> j < length s \<and> is_quote (s ! j) \<and> j' = j + 1)"
  unfolding head_at_def
  by (auto simp: in_run in_run_Star_span class_matches_simps simp del: run.simps)

lemma in_run_quoted_value:
  "(j', c') \<in> set (run s quoted_value (j, c)) \<longleftrightarrow>
     (\<exists>m. j < length s \<and> is_quote (s ! j) \<and> j + 1 < length s \<and> \<not> is_quote (s ! (j + 1)) \<and>
        span (\<lambda>c. \<not> is_quote c) s (j + 2) m \<and> looking_at s m (take 1 (drop j s)) \<and> j' = m + 1 \<and>
        c' = c(2 \<mapsto> take 1 (drop j s), 3 \<mapsto> take (m - (j + 1)) (drop (j + 1) s),
               4 \<mapsto> take 1 (drop m s)))"
  unfolding quoted_value_def
  by (auto simp: in_run in_run_Star_span class_matches_simps simp del: run.simps)


lemma looking_at_at: "length p = n \<Longrightarrow> looking_at (p @ w @ r) n w"
  by (auto simp: looking_at_def)

lemma span_at:
  "length p = n \<Longrightarrow> list_all P x \<Longrightarrow> m = n + length x \<Longrightarrow> span P (p @ x @ r) n m"
  using span_append [of P x p r] by auto

lemma at_boundary_at:
  "length p = n \<Longrightarrow> is_word c \<Longrightarrow> at_boundary (p @ c # r) n \<longleftrightarrow> (p = [] \<or> \<not> is_word (last p))"
  using at_boundary_append [of c p r] by auto

lemma head_parts_decomp:
  assumes ab: "looking_at s i kw" "span is_space s (i + length kw) a" "looking_at s a ob"
    "span (\<lambda>c. True) s (a + length ob) b" "at_boundary s b" "looking_at s b en"
    "span is_space s (b + length en) j"
    and ne: "kw \<noteq> []" "ob \<noteq> []" "en \<noteq> []" "is_word (hd en)"
  shows "\<exists>ws mid ws2. drop i s = kw @ ws @ ob @ mid @ en @ ws2 @ drop j s \<and>
           list_all is_space ws \<and> list_all is_space ws2 \<and> \<not> is_word (last (ob @ mid)) \<and>
           take (j - i) (drop i s) = kw @ ws @ ob @ mid @ en @ ws2 \<and> i \<le> length s \<and> j \<le> length s \<and>
           length ws = a - (i + length kw) \<and> length mid = b - (a + length ob)"
proof -
  have i: "i + length kw \<le> length s" using ab(1) ne(1) by (rule looking_at_bound)
  have a: "a + length ob \<le> length s" using ab(3) ne(2) by (rule looking_at_bound)
  have b: "b + length en \<le> length s" using ab(6) ne(3) by (rule looking_at_bound)
  let ?ws = "seg s (i + length kw) a" and ?mid = "seg s (a + length ob) b"
  let ?ws2 = "seg s (b + length en) j"
  have 1: "drop i s = kw @ drop (i + length kw) s" using ab(1) by (rule looking_at_drop)
  have 2: "drop (i + length kw) s = ?ws @ drop a s" "list_all is_space ?ws"
    "length ?ws = a - (i + length kw)"
    using span_drop [OF ab(2) i] by auto
  have 3: "drop a s = ob @ drop (a + length ob) s" using ab(3) by (rule looking_at_drop)
  have 4: "drop (a + length ob) s = ?mid @ drop b s" "length ?mid = b - (a + length ob)"
    using span_drop [OF ab(4) a] by auto
  have 5: "drop b s = en @ drop (b + length en) s" using ab(6) by (rule looking_at_drop)
  have 6: "drop (b + length en) s = ?ws2 @ drop j s" "list_all is_space ?ws2"
    "length ?ws2 = j - (b + length en)"
    using span_drop [OF ab(7) b] by auto
  have j: "j \<le> length s" using ab(7) b by (rule span_bound)
  have le: "i + length kw \<le> a" "a + length ob \<le> b" "b + length en \<le> j"
    using ab(2,4,7) by (auto simp: span_def)
  have d: "drop i s = (kw @ ?ws @ ob @ ?mid @ en @ ?ws2) @ drop j s"
    using 1 2(1) 3 4(1) 5 6(1) by simp
  have "length (kw @ ?ws @ ob @ ?mid @ en @ ?ws2) = j - i"
    using 2(3) 4(2) 6(3) le by simp
  then have t: "take (j - i) (drop i s) = kw @ ?ws @ ob @ ?mid @ en @ ?ws2"
    using take_of_drop_eq [OF d] by simp
  obtain c r where en: "en = c # r" using ne(3) by (cases en) auto
  have w: "is_word c" using ne(4) en by simp
  let ?p = "take a s @ ob @ ?mid"
  have lp: "length ?p = b" using 4(2) le a by simp
  have "s = take a s @ drop a s" by simp
  then have "s = ?p @ c # r @ drop (b + length en) s"
    using 3 4(1) 5 en by simp
  then have "at_boundary (?p @ c # r @ drop (b + length en) s) b" using ab(5) by simp
  then have "?p = [] \<or> \<not> is_word (last ?p)"
    using at_boundary_at [OF lp w] by simp
  then have nb: "\<not> is_word (last (ob @ ?mid))" using ne(2) by simp
  show ?thesis
    apply (rule exI [of _ ?ws], rule exI [of _ ?mid], rule exI [of _ ?ws2])
    using d 2(2,3) 4(2) 6(2) nb t i j by simp
qed

lemma head_parts_compose:
  assumes s: "s = pre @ kw @ ws @ ob @ mid @ en @ ws2 @ rest"
    and w: "list_all is_space ws" "list_all is_space ws2"
    and nb: "\<not> is_word (last (ob @ mid))" and ne: "ob \<noteq> []" "en \<noteq> []" and hw: "is_word (hd en)"
  shows "looking_at s (length pre) kw"
    and "span is_space s (length pre + length kw) (length pre + length kw + length ws)"
    and "looking_at s (length pre + length kw + length ws) ob"
    and "at_boundary s (length pre + length kw + length ws + length ob + length mid)"
    and "looking_at s (length pre + length kw + length ws + length ob + length mid) en"
    and "span is_space s (length pre + length kw + length ws + length ob + length mid + length en)
           (length pre + length kw + length ws + length ob + length mid + length en + length ws2)"
proof -
  let ?a = "length pre + length kw + length ws"
  let ?b = "?a + length ob + length mid"
  obtain c r where en: "en = c # r" using ne(2) by (cases en) auto
  show "looking_at s (length pre) kw"
    unfolding s by (rule looking_at_at) simp
  have "s = (pre @ kw) @ ws @ (ob @ mid @ en @ ws2 @ rest)" by (simp add: s)
  then show "span is_space s (length pre + length kw) ?a"
    using span_at [of "pre @ kw" "length pre + length kw" is_space ws ?a] w(1) by simp
  have "s = (pre @ kw @ ws) @ ob @ (mid @ en @ ws2 @ rest)" by (simp add: s)
  then show "looking_at s ?a ob"
    using looking_at_at [of "pre @ kw @ ws" ?a ob] by simp
  have s5: "s = (pre @ kw @ ws @ ob @ mid) @ c # (r @ ws2 @ rest)" by (simp add: s en)
  have "at_boundary ((pre @ kw @ ws @ ob @ mid) @ c # (r @ ws2 @ rest)) ?b
      \<longleftrightarrow> (pre @ kw @ ws @ ob @ mid = [] \<or> \<not> is_word (last (pre @ kw @ ws @ ob @ mid)))"
    using hw en by (intro at_boundary_at) simp_all
  moreover have "last (pre @ kw @ ws @ ob @ mid) = last (ob @ mid)" using ne(1) by simp
  ultimately show "at_boundary s ?b" using nb s5 by simp
  have "s = (pre @ kw @ ws @ ob @ mid) @ en @ (ws2 @ rest)" by (simp add: s)
  then show "looking_at s ?b en"
    using looking_at_at [of "pre @ kw @ ws @ ob @ mid" ?b en] by simp
  have "s = (pre @ kw @ ws @ ob @ mid @ en) @ ws2 @ rest" by (simp add: s)
  then show "span is_space s (?b + length en) (?b + length en + length ws2)"
    using span_at [of "pre @ kw @ ws @ ob @ mid @ en" "?b + length en" is_space ws2] w(2) by simp
qed

lemma head_decomp:
  assumes "head_at kw ob en s i j" "kw \<noteq> []" "ob \<noteq> []" "en \<noteq> []" "is_word (hd en)"
  shows "\<exists>ws mid ws2. drop i s = kw @ ws @ ob @ mid @ en @ ws2 @ drop j s \<and>
           list_all is_space ws \<and> list_all is_space ws2 \<and> \<not> is_word (last (ob @ mid)) \<and>
           take (j - i) (drop i s) = kw @ ws @ ob @ mid @ en @ ws2 \<and> i \<le> length s \<and> j \<le> length s"
proof -
  from assms(1) obtain a b where ab:
    "looking_at s i kw" "span is_space s (i + length kw) a" "looking_at s a ob"
    "span (\<lambda>c. True) s (a + length ob) b" "at_boundary s b" "looking_at s b en"
    "span is_space s (b + length en) j"
    unfolding head_at_def by blast
  from head_parts_decomp [OF ab assms(2,3,4,5)] show ?thesis by blast
qed

lemma head_compose:
  assumes s: "s = pre @ kw @ ws @ ob @ mid @ en @ ws2 @ rest"
    and w: "list_all is_space ws" "list_all is_space ws2"
    and nb: "\<not> is_word (last (ob @ mid))" and ne: "ob \<noteq> []" "en \<noteq> []" and hw: "is_word (hd en)"
  shows "head_at kw ob en s (length pre)
           (length pre + length kw + length ws + length ob + length mid + length en + length ws2)"
proof -
  have "span (\<lambda>c. True) s (length pre + length kw + length ws + length ob)
      (length pre + length kw + length ws + length ob + length mid)"
    unfolding span_def by (simp add: s)
  then show ?thesis
    unfolding head_at_def using head_parts_compose [OF assms] by blast
qed


lemma value_decomp:
  assumes "(j', c') \<in> set (run s quoted_value (j, c))"
  shows "\<exists>q old. drop j s = q # old @ q # drop j' s \<and> is_quote q \<and> old \<noteq> [] \<and>
           list_all (\<lambda>c. \<not> is_quote c) old \<and> c' = c(2 \<mapsto> [q], 3 \<mapsto> old, 4 \<mapsto> [q]) \<and>
           j < j' \<and> j' \<le> length s"
proof -
  from assms obtain m where m:
    "j < length s" "is_quote (s ! j)" "j + 1 < length s" "\<not> is_quote (s ! (j + 1))"
    "span (\<lambda>c. \<not> is_quote c) s (j + 2) m" "looking_at s m (take 1 (drop j s))" "j' = m + 1"
    "c' = c(2 \<mapsto> take 1 (drop j s), 3 \<mapsto> take (m - (j + 1)) (drop (j + 1) s),
            4 \<mapsto> take 1 (drop m s))"
    unfolding in_run_quoted_value by blast
  let ?q = "s ! j" and ?t = "seg s (j + 2) m"
  have q1: "take 1 (drop j s) = [?q]" using m(1) by (simp add: take_Suc_conv_app_nth hd_drop_conv_nth take_Suc)
  have 1: "drop j s = ?q # drop (j + 1) s" using m(1) by (simp add: Cons_nth_drop_Suc)
  have 2: "drop (j + 1) s = s ! (j + 1) # drop (j + 2) s"
    using m(3) Cons_nth_drop_Suc [of "j + 1" s] by simp
  have j2: "j + 2 \<le> length s" using m(3) by simp
  have 3: "drop (j + 2) s = ?t @ drop m s" "list_all (\<lambda>c. \<not> is_quote c) ?t"
    "length ?t = m - (j + 2)"
    using span_drop [OF m(5) j2] by auto
  have le: "j + 2 \<le> m" using m(5) by (simp add: span_def)
  have lq: "looking_at s m [?q]" using m(6) q1 by simp
  then have 4: "drop m s = [?q] @ drop (m + 1) s" using looking_at_drop [OF lq] by simp
  have mb: "m + 1 \<le> length s" using looking_at_bound [OF lq] by simp
  let ?old = "s ! (j + 1) # ?t"
  have d: "drop (j + 1) s = ?old @ drop m s" using 2 3(1) by simp
  have "length ?old = m - (j + 1)" using 3(3) le by simp
  then have t3: "take (m - (j + 1)) (drop (j + 1) s) = ?old"
    using take_of_drop_eq [OF d] by simp
  have t4: "take 1 (drop m s) = [?q]" using 4 by simp
  have "drop j s = ?q # ?old @ ?q # drop j' s" using 1 d 4 m(7) by simp
  moreover have "list_all (\<lambda>c. \<not> is_quote c) ?old" using m(4) 3(2) by simp
  moreover have "c' = c(2 \<mapsto> [?q], 3 \<mapsto> ?old, 4 \<mapsto> [?q])" using m(8) q1 t3 t4 by simp
  ultimately show ?thesis using m(2,7) mb le by (intro exI [of _ ?q] exI [of _ ?old]) simp
qed

lemma value_compose:
  assumes s: "s = p @ q # old @ q # rest" and q: "is_quote q"
    and old: "old \<noteq> []" "list_all (\<lambda>c. \<not> is_quote c) old"
  shows "(length p + length old + 2, c(2 \<mapsto> [q], 3 \<mapsto> old, 4 \<mapsto> [q]))
           \<in> set (run s quoted_value (length p, c))"
proof -
  obtain o1 ot where o: "old = o1 # ot" using old(1) by (cases old) auto
  let ?j = "length p" and ?m = "length p + length old + 1"
  have dj: "drop ?j s = q # old @ q # rest" by (simp add: s)
  have 1: "?j < length s" "?j + 1 < length s" by (simp_all add: s o)
  have sj: "s ! ?j = q" by (simp add: s)
  have sj1: "s ! (?j + 1) = o1" by (simp add: s o nth_append)
  have "s = (p @ [q, o1]) @ ot @ (q # rest)" by (simp add: s o)
  then have 2: "span (\<lambda>c. \<not> is_quote c) s (?j + 2) ?m"
    using span_at [of "p @ [q, o1]" "?j + 2" "\<lambda>c. \<not> is_quote c" ot ?m] old(2) o by simp
  have "s = (p @ q # old) @ [q] @ rest" by (simp add: s)
  then have 3: "looking_at s ?m [q]"
    using looking_at_at [of "p @ q # old" ?m "[q]" rest] by simp
  have t1: "take 1 (drop ?j s) = [q]" using dj by simp
  have "drop (?j + 1) s = old @ q # rest" by (simp add: s)
  then have t3: "take (?m - (?j + 1)) (drop (?j + 1) s) = old" by simp
  have "drop ?m s = q # rest" by (simp add: s)
  then have t4: "take 1 (drop ?m s) = [q]" by simp
  show ?thesis
    unfolding in_run_quoted_value
    using 1 sj sj1 q old(2) o 2 3 t1 t3 t4
    by (intro exI [of _ ?m]) simp
qed


lemma in_run_Seq_Group:
  "(j', c') \<in> set (run s (Seq (Group n H) Q) (i, c)) \<longleftrightarrow>
     (\<exists>j c0. (j, c0) \<in> set (run s H (i, c)) \<and>
        (j', c') \<in> set (run s Q (j, c0(n \<mapsto> take (j - i) (drop i s)))))"
  by (auto simp: in_run_Seq in_run_Group simp del: run.simps)

lemma in_run_Seq_WordBoundary:
  "(j, c') \<in> set (run s (Seq WordBoundary R) (i, c)) \<longleftrightarrow>
     at_boundary s i \<and> (j, c') \<in> set (run s R (i, c))"
  by (auto simp: in_run_Seq in_run_WordBoundary simp del: run.simps)

lemma pattern_linux_re:
  "pattern linux_re = Seq (Group 1 (Seq (Lit (js ''linux:'')) (Seq (Star True space)
      (Seq (Lit (js ''{'')) (Seq (Star False anything) (Seq WordBoundary
      (Seq (Lit (js ''executableName:'')) (Star True space)))))))) quoted_value"
  by (simp add: linux_re_def)

lemma pattern_win_re:
  "pattern win_re = Seq (Group 1 (Seq WordBoundary (Seq (Lit (js ''win:'')) (Seq (Star True space)
      (Seq (Lit (js ''{'')) (Seq (Star False anything) (Seq WordBoundary
      (Seq (Lit (js ''executableName:'')) (Star True space))))))))) quoted_value"
  by (simp add: win_re_def)

lemma pattern_linux_test_re:
  "pattern linux_test_re = Seq (Lit (js ''linux:'')) (Seq (Star True space)
      (Seq (Lit (js ''{'')) (Seq (Star False anything) (Seq WordBoundary
      (Seq (Lit (js ''executableName:'')) (Seq (Star True space) (Class True quote_atoms)))))))"
  by (simp add: linux_test_re_def)

lemma pattern_win_test_re:
  "pattern win_test_re = Seq WordBoundary (Seq (Lit (js ''win:'')) (Seq (Star True space)
      (Seq (Lit (js ''{'')) (Seq (Star False anything) (Seq WordBoundary
      (Seq (Lit (js ''executableName:'')) (Seq (Star True space) (Class True quote_atoms))))))))"
  by (simp add: win_test_re_def)

lemma in_run_linux_re:
  "(j', c') \<in> set (run s (pattern linux_re) (i, \<lambda>_. None)) \<longleftrightarrow> field_at False (js ''linux:'') s i j' c'"
  unfolding field_at_def pattern_linux_re in_run_Seq_Group in_run_head by auto

lemma in_run_win_re:
  "(j', c') \<in> set (run s (pattern win_re) (i, \<lambda>_. None)) \<longleftrightarrow> field_at True (js ''win:'') s i j' c'"
  unfolding field_at_def pattern_win_re in_run_Seq_Group in_run_Seq_WordBoundary in_run_head by auto

lemma in_run_linux_test_re:
  "(\<exists>j' c'. (j', c') \<in> set (run s (pattern linux_test_re) (i, \<lambda>_. None)))
     \<longleftrightarrow> test_at False (js ''linux:'') s i"
  unfolding test_at_def pattern_linux_test_re in_run_head_test by auto

lemma in_run_win_test_re:
  "(\<exists>j' c'. (j', c') \<in> set (run s (pattern win_test_re) (i, \<lambda>_. None)))
     \<longleftrightarrow> test_at True (js ''win:'') s i"
  unfolding test_at_def pattern_win_test_re in_run_Seq_WordBoundary in_run_head_test by auto

lemma is_word_heads [simp]:
  "is_word (hd (js ''linux:''))" "is_word (hd (js ''win:''))" "is_word (hd (js ''executableName:''))"
  by (simp_all add: js_def is_word_def)

lemma boundary_take:
  assumes "drop i s = c # r" "is_word c"
  shows "at_boundary s i \<longleftrightarrow> (take i s = [] \<or> \<not> is_word (last (take i s)))"
proof -
  have i: "i < length s" using assms(1) by (cases "i < length s") auto
  then have l: "length (take i s) = i" by simp
  have "s = take i s @ c # r" using assms(1) by (metis append_take_drop_id)
  then have "at_boundary s i = at_boundary (take i s @ c # r) i" by simp
  also have "\<dots> \<longleftrightarrow> (take i s = [] \<or> \<not> is_word (last (take i s)))"
    using l assms(2) by (rule at_boundary_at)
  finally show ?thesis .
qed

lemma field_at_sound:
  assumes "field_at wb kw s i j' caps" "kw \<noteq> []" "is_word (hd kw)"
  shows "field_rewritten wb kw name s (take i s @ keep_quotes name caps @ drop j' s)"
proof -
  from assms(1) obtain j where wb: "wb \<longrightarrow> at_boundary s i"
    and h: "head_at kw (js ''{'') (js ''executableName:'') s i j"
    and v: "(j', caps) \<in> set (run s quoted_value (j, (\<lambda>_. None)(1 \<mapsto> take (j - i) (drop i s))))"
    unfolding field_at_def by blast
  from head_decomp [OF h assms(2)] obtain ws mid ws2 where
    d: "drop i s = kw @ ws @ js ''{'' @ mid @ js ''executableName:'' @ ws2 @ drop j s"
    and w: "list_all is_space ws" "list_all is_space ws2" "\<not> is_word (last (js ''{'' @ mid))"
    and t: "take (j - i) (drop i s) = kw @ ws @ js ''{'' @ mid @ js ''executableName:'' @ ws2"
    by auto
  from value_decomp [OF v] obtain q old where
    dv: "drop j s = q # old @ q # drop j' s" and q: "is_quote q" "old \<noteq> []"
      "list_all (\<lambda>c. \<not> is_quote c) old"
    and c: "caps = ((\<lambda>_. None)(1 \<mapsto> take (j - i) (drop i s)))(2 \<mapsto> [q], 3 \<mapsto> old, 4 \<mapsto> [q])"
    by auto
  have k: "keep_quotes name caps
      = (kw @ ws @ js ''{'' @ mid @ js ''executableName:'' @ ws2) @ [q] @ name @ [q]"
    unfolding keep_quotes_def cap_text_def c t by simp
  obtain k0 kr where kw: "kw = k0 # kr" using assms(2) by (cases kw) auto
  have "drop i s = k0 # (kr @ ws @ js ''{'' @ mid @ js ''executableName:'' @ ws2 @ drop j s)"
    using d kw by simp
  moreover have "is_word k0" using assms(3) kw by simp
  ultimately have b: "at_boundary s i \<longleftrightarrow> (take i s = [] \<or> \<not> is_word (last (take i s)))"
    by (rule boundary_take)
  have "s = take i s @ drop i s" by simp
  then have s: "s = take i s @ kw @ ws @ js ''{'' @ mid @ js ''executableName:'' @ ws2
      @ q # old @ q # drop j' s"
    using d dv by simp
  have s': "take i s @ keep_quotes name caps @ drop j' s
      = take i s @ kw @ ws @ js ''{'' @ mid @ js ''executableName:'' @ ws2 @ q # name @ q # drop j' s"
    unfolding k by simp
  show ?thesis
    unfolding field_rewritten_def
    apply (rule exI [of _ "take i s"], rule exI [of _ ws], rule exI [of _ mid],
        rule exI [of _ ws2], rule exI [of _ q], rule exI [of _ old], rule exI [of _ "drop j' s"])
    using s s' wb b w q by blast
qed

lemma field_at_complete:
  assumes "field_rewritten wb kw name s s'" "kw \<noteq> []" "is_word (hd kw)"
  shows "\<exists>i j' caps. i \<le> length s \<and> field_at wb kw s i j' caps"
proof -
  from assms(1) obtain pre ws mid ws2 q old post where
    s: "s = pre @ kw @ ws @ js ''{'' @ mid @ js ''executableName:'' @ ws2 @ q # old @ q # post"
    and wb: "wb \<longrightarrow> pre = [] \<or> \<not> is_word (last pre)"
    and w: "list_all is_space ws" "\<not> is_word (last (js ''{'' @ mid))" "list_all is_space ws2"
    and q: "is_quote q" "old \<noteq> []" "list_all (\<lambda>c. \<not> is_quote c) old"
    unfolding field_rewritten_def by blast
  let ?p = "pre @ kw @ ws @ js ''{'' @ mid @ js ''executableName:'' @ ws2"
  let ?J = "length pre + length kw + length ws + length (js ''{'') + length mid
      + length (js ''executableName:'') + length ws2"
  have h: "head_at kw (js ''{'') (js ''executableName:'') s (length pre) ?J"
    using s w(1,3,2) by (rule head_compose) simp_all
  have lp: "length ?p = ?J" by simp
  have s2: "s = ?p @ q # old @ q # post" using s by simp
  have v: "(length ?p + length old + 2,
       ((\<lambda>_. None)(1 \<mapsto> take (?J - length pre) (drop (length pre) s)))(2 \<mapsto> [q], 3 \<mapsto> old, 4 \<mapsto> [q]))
      \<in> set (run s quoted_value (length ?p, (\<lambda>_. None)(1 \<mapsto> take (?J - length pre) (drop (length pre) s))))"
    using s2 q by (rule value_compose)
  obtain k0 kr where kw: "kw = k0 # kr" using assms(2) by (cases kw) auto
  have "at_boundary (pre @ k0 # (kr @ ws @ js ''{'' @ mid @ js ''executableName:'' @ ws2
      @ q # old @ q # post)) (length pre) \<longleftrightarrow> (pre = [] \<or> \<not> is_word (last pre))"
    using assms(3) kw by (intro at_boundary_at) simp_all
  then have b: "wb \<longrightarrow> at_boundary s (length pre)" using wb s kw by simp
  have "field_at wb kw s (length pre) (length ?p + length old + 2)
      (((\<lambda>_. None)(1 \<mapsto> take (?J - length pre) (drop (length pre) s)))(2 \<mapsto> [q], 3 \<mapsto> old, 4 \<mapsto> [q]))"
    unfolding field_at_def using b h v lp by (metis (no_types, lifting))
  moreover have "length pre \<le> length s" using s by simp
  ultimately show ?thesis by blast
qed

lemma field_rewritten_exec_field:
  "field_rewritten wb kw name s s' \<Longrightarrow> exec_field_after wb kw s"
  unfolding field_rewritten_def exec_field_after_def by blast

lemma test_at_iff:
  assumes "kw \<noteq> []" "is_word (hd kw)"
  shows "(\<exists>i\<le>length s. test_at wb kw s i) \<longleftrightarrow> exec_field_after wb kw s"
proof
  assume "\<exists>i\<le>length s. test_at wb kw s i"
  then obtain i j where wb: "wb \<longrightarrow> at_boundary s i"
    and h: "head_at kw (js ''{'') (js ''executableName:'') s i j"
    and j: "j < length s" "is_quote (s ! j)"
    unfolding test_at_def by blast
  from head_decomp [OF h assms(1)] obtain ws mid ws2 where
    d: "drop i s = kw @ ws @ js ''{'' @ mid @ js ''executableName:'' @ ws2 @ drop j s"
    and w: "list_all is_space ws" "list_all is_space ws2" "\<not> is_word (last (js ''{'' @ mid))"
    by auto
  have dj: "drop j s = s ! j # drop (Suc j) s" using j(1) by (simp add: Cons_nth_drop_Suc)
  obtain k0 kr where kw: "kw = k0 # kr" using assms(1) by (cases kw) auto
  have "drop i s = k0 # (kr @ ws @ js ''{'' @ mid @ js ''executableName:'' @ ws2 @ drop j s)"
    using d kw by simp
  moreover have "is_word k0" using assms(2) kw by simp
  ultimately have b: "at_boundary s i \<longleftrightarrow> (take i s = [] \<or> \<not> is_word (last (take i s)))"
    by (rule boundary_take)
  have "s = take i s @ drop i s" by simp
  then have "s = take i s @ kw @ ws @ js ''{'' @ mid @ js ''executableName:'' @ ws2
      @ s ! j # drop (Suc j) s"
    using d dj by simp
  then show "exec_field_after wb kw s"
    unfolding exec_field_after_def using wb b w j(2) by blast
next
  assume "exec_field_after wb kw s"
  then obtain pre ws mid ws2 q post where
    s: "s = pre @ kw @ ws @ js ''{'' @ mid @ js ''executableName:'' @ ws2 @ q # post"
    and wb: "wb \<longrightarrow> pre = [] \<or> \<not> is_word (last pre)"
    and w: "list_all is_space ws" "\<not> is_word (last (js ''{'' @ mid))" "list_all is_space ws2"
    and q: "is_quote q"
    unfolding exec_field_after_def by blast
  let ?p = "pre @ kw @ ws @ js ''{'' @ mid @ js ''executableName:'' @ ws2"
  let ?J = "length pre + length kw + length ws + length (js ''{'') + length mid
      + length (js ''executableName:'') + length ws2"
  have h: "head_at kw (js ''{'') (js ''executableName:'') s (length pre) ?J"
    using s w(1,3,2) by (rule head_compose) simp_all
  have lp: "length ?p = ?J" by simp
  have "s = ?p @ q # post" using s by simp
  then have "s ! length ?p = q" "length ?p < length s"
    by (metis nth_append_length, simp add: s)
  then have j: "?J < length s" "is_quote (s ! ?J)" using q unfolding lp by auto
  obtain k0 kr where kw: "kw = k0 # kr" using assms(1) by (cases kw) auto
  have "at_boundary (pre @ k0 # (kr @ ws @ js ''{'' @ mid @ js ''executableName:'' @ ws2
      @ q # post)) (length pre) \<longleftrightarrow> (pre = [] \<or> \<not> is_word (last pre))"
    using assms(2) kw by (intro at_boundary_at) simp_all
  then have b: "wb \<longrightarrow> at_boundary s (length pre)" using wb s kw by simp
  have "test_at wb kw s (length pre)"
    unfolding test_at_def using b h j by blast
  moreover have "length pre \<le> length s" using s by simp
  ultimately show "\<exists>i\<le>length s. test_at wb kw s i" by blast
qed

lemma test_linux_test_iff: "test linux_test_re s \<longleftrightarrow> exec_field_after False (js ''linux:'') s"
proof -
  have "test linux_test_re s \<longleftrightarrow> (\<exists>i\<le>length s. test_at False (js ''linux:'') s i)"
    unfolding test_iff nonempty_iff_member in_run_linux_test_re ..
  then show ?thesis by (simp add: test_at_iff)
qed

lemma test_win_test_iff: "test win_test_re s \<longleftrightarrow> exec_field_after True (js ''win:'') s"
proof -
  have "test win_test_re s \<longleftrightarrow> (\<exists>i\<le>length s. test_at True (js ''win:'') s i)"
    unfolding test_iff nonempty_iff_member in_run_win_test_re ..
  then show ?thesis by (simp add: test_at_iff)
qed

lemma exec_None_iff:
  "exec r s = None \<longleftrightarrow> (\<forall>i\<le>length s. run s r (i, \<lambda>_. None) = [])"
proof -
  have "set [0..<length s + 1] = {i. i \<le> length s}" by auto
  then show ?thesis unfolding exec_def first_match_None_iff by blast
qed

lemma replace_with_win:
  "replace_with win_re s (keep_quotes name) = s \<and> \<not> (\<exists>t. field_rewritten True (js ''win:'') name s t)
   \<or> field_rewritten True (js ''win:'') name s (replace_with win_re s (keep_quotes name))"
proof (cases "exec (pattern win_re) s")
  case None
  have "\<not> (\<exists>t. field_rewritten True (js ''win:'') name s t)"
  proof
    assume "\<exists>t. field_rewritten True (js ''win:'') name s t"
    then obtain t where "field_rewritten True (js ''win:'') name s t" by blast
    from field_at_complete [OF this js_nonempty(3) is_word_heads(2)]
    obtain i j' caps where "i \<le> length s" "field_at True (js ''win:'') s i j' caps"
      by blast
    then show False using None unfolding exec_None_iff in_run_win_re [symmetric] by force
  qed
  then show ?thesis using None by (simp add: replace_with_def)
next
  case (Some m)
  then obtain i j' caps where m: "exec (pattern win_re) s = Some (i, j', caps)"
    by (cases m) auto
  then have "field_at True (js ''win:'') s i j' caps"
    using exec_SomeD [OF m] in_run_win_re by simp
  then have "field_rewritten True (js ''win:'') name s (take i s @ keep_quotes name caps @ drop j' s)"
    by (rule field_at_sound) simp_all
  then show ?thesis using m by (simp add: replace_with_def)
qed

lemma insert_template:
  \<open>js ''$1    executableName: "'' @ name @ js ''",'' @ [10]
     = 36 # 49 # (js ''    executableName: "'' @ name @ js ''",'' @ [10])\<close>
  by (simp add: js_def)

lemma has_anchor_block: "has_anchor s \<Longrightarrow> has_linux_block s"
  unfolding has_anchor_def has_linux_block_def by blast

lemma exec_field_block: "exec_field_after False (js ''linux:'') s \<Longrightarrow> has_linux_block s"
  unfolding exec_field_after_def has_linux_block_def by (auto simp: js_def)

lemmas run_defs =
  main_def resolveIdentity_def requireEnv_def sanitizeSlug_eq slug_shape_def trim_def
  patchPackageJson_def patchPackageJson_content_def
  patchElectronBuilderTs_def patchElectronBuilderTs_content_def ensureLinuxExecutableName_def
  alignWinExecutableName_def
  patchDefaultBrowserController_def patchDefaultBrowserController_content_def
  patchMainHeader_def patchMainHeader_content_def
  readFileSync_def writeFileSync_def writeIfChanged_def
  str_includes_def replaceAll_def replaceAll_from.simps banner_def
  appId_re_def productName_re_def win_test_re_def win_re_def
  linux_test_re_def linux_re_def linux_insert_re_def xdg_re_def bs_def
  JSON_parse_def JSON_stringify_def skip_ws_def is_json_ws_def QuoteJSONString_def
  obj_put_def is_array_index_def parse_number_def digits_val_def show_int_def
  hex_val_def escape_char_def cons_unit_def unicode_escape_def hex_digit_def
  is_leading_surrogate_def is_trailing_surrogate_def

lemma has_linux_block_brace: "has_linux_block s \<Longrightarrow> 123 \<in> set s"
  by (auto simp: has_linux_block_def)

lemma trim_core:
  assumes "list_all is_space a" "list_all is_space b" "core \<noteq> []"
    "\<not> is_space (hd core)" "\<not> is_space (last core)"
  shows "trim (a @ core @ b) = core"
proof -
  obtain c cs where c: "core = c # cs" using assms(3) by (cases core) auto
  have 1: "dropWhile is_space (a @ core @ b) = core @ b"
    using assms(1,4) c by (simp add: dropWhile_append2 list_all_iff)
  have "dropWhile is_space (rev core) = rev core"
    using assms(3,5) by (cases "rev core") (auto simp: hd_rev dest: arg_cong [where f = hd])
  moreover have "dropWhile is_space (rev b @ rev core) = dropWhile is_space (rev core)"
    using assms(2) by (intro dropWhile_append2) (simp add: list_all_iff)
  ultimately have 2: "dropWhile is_space (rev b @ rev core) = rev core" by simp
  show ?thesis unfolding trim_def 1 using 2 by simp
qed


lemma in_run_id_re:
  "(j', c') \<in> set (run s (Seq (Group 1 (Seq WordBoundary (Seq (Lit kw) (Star True space))))
        quoted_value) (i, \<lambda>_. None)) \<longleftrightarrow>
     at_boundary s i \<and>
     (\<exists>j. looking_at s i kw \<and> span is_space s (i + length kw) j \<and>
        (j', c') \<in> set (run s quoted_value (j, (\<lambda>_. None)(1 \<mapsto> take (j - i) (drop i s)))))"
  unfolding in_run_Seq_Group in_run_Seq_WordBoundary
  by (auto simp: in_run_Seq in_run_Lit in_run_Star_span class_matches_simps simp del: run.simps)

lemma getSubstitution_plain_prefix:
  "36 \<notin> set x \<Longrightarrow>
     getSubstitution ma p f caps m (x @ y) = x @ getSubstitution ma p f caps m y"
proof (induction x)
  case Nil
  then show ?case by simp
next
  case (Cons c x)
  then show ?case by (cases "x @ y") auto
qed

lemma getSubstitution_id_template:
  assumes "36 \<notin> set v" "4 \<le> m"
  shows \<open>getSubstitution ma p f caps m (js ''$1"'' @ v @ js ''"$4'')
           = cap_text caps 1 @ 34 # v @ 34 # cap_text caps 4\<close>
proof -
  have t: \<open>js ''$1"'' @ v @ js ''"$4'' = 36 # 49 # ((34 # v @ [34]) @ [36, 52])\<close>
    by (simp add: js_def)
  have 1: "getSubstitution ma p f caps m (36 # 49 # ((34 # v @ [34]) @ [36, 52]))
      = cap_text caps 1 @ getSubstitution ma p f caps m ((34 # v @ [34]) @ [36, 52])"
    using assms(2) by (simp add: is_digit_def Let_def)
  have 2: "getSubstitution ma p f caps m ((34 # v @ [34]) @ [36, 52])
      = (34 # v @ [34]) @ getSubstitution ma p f caps m [36, 52]"
    using assms(1) by (intro getSubstitution_plain_prefix) simp
  have 3: "getSubstitution ma p f caps m [36, 52] = cap_text caps 4"
    using assms(2) by (simp add: is_digit_def Let_def)
  show ?thesis unfolding t 1 2 3 by simp
qed


lemma pattern_appId_re:
  "pattern appId_re = Seq (Group 1 (Seq WordBoundary (Seq (Lit (js ''appId:'')) (Star True space))))
      quoted_value"
  by (simp add: appId_re_def)

lemma pattern_productName_re:
  "pattern productName_re
     = Seq (Group 1 (Seq WordBoundary (Seq (Lit (js ''productName:'')) (Star True space))))
      quoted_value"
  by (simp add: productName_re_def)

lemma count_groups_quoted_value: "count_groups quoted_value = 3"
  by (simp add: quoted_value_def)

lemma id_rewrite_sound:
  assumes r: "(j', caps) \<in> set (run s (Seq (Group 1 (Seq WordBoundary (Seq (Lit kw) (Star True space))))
        quoted_value) (i, \<lambda>_. None))"
    and kw: "kw \<noteq> []" "is_word (hd kw)"
  shows "id_field_rewritten kw v s
           (take i s @ (cap_text caps 1 @ 34 # v @ 34 # cap_text caps 4) @ drop j' s)"
proof -
  from r obtain j where b: "at_boundary s i" and l: "looking_at s i kw"
    and sp: "span is_space s (i + length kw) j"
    and q: "(j', caps) \<in> set (run s quoted_value (j, (\<lambda>_. None)(1 \<mapsto> take (j - i) (drop i s))))"
    unfolding in_run_id_re by blast
  have i: "i + length kw \<le> length s" using l kw(1) by (rule looking_at_bound)
  let ?ws = "seg s (i + length kw) j"
  have d1: "drop i s = kw @ drop (i + length kw) s" using l by (rule looking_at_drop)
  have d2: "drop (i + length kw) s = ?ws @ drop j s" "list_all is_space ?ws"
    "length ?ws = j - (i + length kw)"
    using span_drop [OF sp i] by auto
  have le: "i + length kw \<le> j" using sp by (simp add: span_def)
  have d: "drop i s = (kw @ ?ws) @ drop j s" using d1 d2(1) by simp
  have "length (kw @ ?ws) = j - i" using d2(3) le by simp
  then have t: "take (j - i) (drop i s) = kw @ ?ws" using take_of_drop_eq [OF d] by simp
  from value_decomp [OF q] obtain qc old where
    dv: "drop j s = qc # old @ qc # drop j' s" and qq: "is_quote qc" "old \<noteq> []"
      "list_all (\<lambda>c. \<not> is_quote c) old"
    and c: "caps = ((\<lambda>_. None)(1 \<mapsto> take (j - i) (drop i s)))(2 \<mapsto> [qc], 3 \<mapsto> old, 4 \<mapsto> [qc])"
    by auto
  have c1: "cap_text caps 1 = kw @ ?ws" and c4: "cap_text caps 4 = [qc]"
    unfolding cap_text_def c t by simp_all
  obtain k0 kr where k: "kw = k0 # kr" using kw(1) by (cases kw) auto
  have "drop i s = k0 # (kr @ ?ws @ drop j s)" using d k by simp
  moreover have "is_word k0" using kw(2) k by simp
  ultimately have bt: "at_boundary s i \<longleftrightarrow> (take i s = [] \<or> \<not> is_word (last (take i s)))"
    by (rule boundary_take)
  have "s = take i s @ drop i s" by simp
  then have s: "s = take i s @ kw @ ?ws @ qc # old @ qc # drop j' s" using d dv by simp
  have s': "take i s @ (cap_text caps 1 @ 34 # v @ 34 # cap_text caps 4) @ drop j' s
      = take i s @ kw @ ?ws @ 34 # v @ 34 # qc # drop j' s"
    unfolding c1 c4 by simp
  show ?thesis
    unfolding id_field_rewritten_def
    apply (rule exI [of _ "take i s"], rule exI [of _ ?ws], rule exI [of _ qc],
        rule exI [of _ old], rule exI [of _ "drop j' s"])
    using s s' b bt d2(2) qq by blast
qed

lemma replace_id_template:
  assumes p: "pattern re = Seq (Group 1 (Seq WordBoundary (Seq (Lit kw) (Star True space))))
        quoted_value"
    and kw: "kw \<noteq> []" "is_word (hd kw)"
    and t: \<open>replaceOrThrow s re (js ''$1"'' @ v @ js ''"$4'') what = Inr s'\<close>
    and v: "36 \<notin> set v"
  shows "id_field_rewritten kw v s s'"
proof -
  from t have te: "test re s" and s': \<open>s' = replace re s (js ''$1"'' @ v @ js ''"$4'')\<close>
    by (auto simp: replaceOrThrow_def split: if_splits)
  from te obtain m where "exec (pattern re) s = Some m" unfolding test_def by blast
  then obtain i j' caps where m: "exec (pattern re) s = Some (i, j', caps)" by (cases m) auto
  have g: "count_groups (pattern re) = 4" unfolding p by (simp add: count_groups_quoted_value)
  have r: "(j', caps) \<in> set (run s (Seq (Group 1 (Seq WordBoundary (Seq (Lit kw) (Star True space))))
        quoted_value) (i, \<lambda>_. None))"
    using exec_SomeD [OF m] unfolding p by blast
  have "s' = take i s @ (cap_text caps 1 @ 34 # v @ 34 # cap_text caps 4) @ drop j' s"
    unfolding s' replace_def m g getSubstitution_id_template [OF v order_refl] by simp
  then show ?thesis using id_rewrite_sound [OF r kw] by simp
qed

lemma is_word_id_heads [simp]: "is_word (hd (js ''appId:''))" "is_word (hd (js ''productName:''))"
  by (simp_all add: js_def is_word_def)

lemma js_id_nonempty [simp]: "js ''appId:'' \<noteq> []" "js ''productName:'' \<noteq> []"
  by (simp_all add: js_def)

lemmas replace_appId = replace_id_template [OF pattern_appId_re js_id_nonempty(1) is_word_id_heads(1)]
lemmas replace_productName =
  replace_id_template [OF pattern_productName_re js_id_nonempty(2) is_word_id_heads(2)]

lemma has_linux_block_prefix: "has_linux_block x \<Longrightarrow> has_linux_block (x @ z)"
  unfolding has_linux_block_def by (metis append.assoc)

lemma has_linux_block_suffix: "has_linux_block y \<Longrightarrow> has_linux_block (z @ y)"
  unfolding has_linux_block_def by (metis append.assoc)

lemma block_head_units:
  assumes "list_all is_space ws" "c \<in> set (js ''linux:'' @ ws)"
  shows "\<not> is_quote c" "c \<noteq> 123"
  using assms by (auto simp: js_def is_quote_def is_space_def list_all_iff)

lemma block_in_replacement:
  assumes h: "has_linux_block (x @ n @ q # y)" and n: "123 \<notin> set n" and q: "is_quote q"
  shows "has_linux_block x \<or> has_linux_block y"
proof -
  from h obtain a ws b where e: "x @ n @ q # y = a @ js ''linux:'' @ ws @ [123] @ b"
    and ws: "list_all is_space ws"
    unfolding has_linux_block_def by blast
  let ?B = "js ''linux:'' @ ws @ [123]"
  have nq: "q \<notin> set ?B"
    using block_head_units [OF ws, of q] q by (auto simp: is_quote_def)
  have nb: "123 \<notin> set (n @ [q])" using n q by (auto simp: is_quote_def)
  have blockI: "has_linux_block (u @ ?B @ v)" for u v
    unfolding has_linux_block_def using ws by (intro exI [of _ u] exI [of _ ws] exI [of _ v]) simp
  have "a @ (?B @ b) = (x @ n @ [q]) @ y" using e by simp
  then consider us where "a = (x @ n @ [q]) @ us" "us @ (?B @ b) = y"
    | us where "a @ us = x @ n @ [q]" "?B @ b = us @ y"
    unfolding append_eq_append_conv2 by blast
  then show ?thesis
  proof cases
    case 1
    then have "y = us @ ?B @ b" by simp
    then show ?thesis using blockI by metis
  next
    case 2
    from 2(1) consider vs where "a = x @ vs" "vs @ us = n @ [q]"
      | vs where "a @ vs = x" "us = vs @ n @ [q]"
      unfolding append_eq_append_conv2 by blast
    then show ?thesis
    proof cases
      case 1
      show ?thesis
      proof (cases "us = []")
        case True
        then have "y = [] @ ?B @ b" using 2(2) by simp
        then show ?thesis using blockI by metis
      next
        case False
        then have l: "last us = q" using 1(2) by (metis last_appendR last_snoc)
        from 2(2) consider t where "?B = us @ t" | t where "?B @ t = us"
          unfolding append_eq_append_conv2 by blast
        then show ?thesis
        proof cases
          case 1
          then have "q \<in> set ?B" using l False by (metis last_in_set Un_iff set_append)
          then show ?thesis using nq by simp
        next
          case 2
          then have "123 \<in> set us" by (metis Un_iff append.assoc in_set_conv_decomp set_append)
          then have "123 \<in> set (n @ [q])" using 1(2) by (metis Un_iff set_append)
          then show ?thesis using nb by simp
        qed
      qed
    next
      case v: 2
      have "?B @ b = vs @ ((n @ [q]) @ y)" using 2(2) v(2) by simp
      then consider t where "?B = vs @ t" "t @ b = (n @ [q]) @ y"
        | t where "?B @ t = vs" "b = t @ (n @ [q]) @ y"
        unfolding append_eq_append_conv2 by blast
      then show ?thesis
      proof cases
        case 1
        show ?thesis
        proof (cases "t = []")
          case True
          then have "x = a @ ?B @ []" using 1(1) v(1) by simp
          then show ?thesis using blockI by metis
        next
          case False
          have s: "set t \<subseteq> set ?B" using 1(1) by (metis Un_upper2 set_append)
          have "last ?B = 123" by simp
          then have l: "last t = 123" using 1(1) False by (metis last_appendR)
          from 1(2) consider u where "t = (n @ [q]) @ u" | u where "t @ u = n @ [q]"
            unfolding append_eq_append_conv2 by blast
          then show ?thesis
          proof cases
            case 1
            then have "q \<in> set t" by simp
            then show ?thesis using s nq by blast
          next
            case 2
            then have "123 \<in> set (n @ [q])" using l False by (metis last_in_set Un_iff set_append)
            then show ?thesis using nb by simp
          qed
        qed
      next
        case 2
        then have "x = a @ ?B @ t" using v(1) by simp
        then show ?thesis using blockI by metis
      qed
    qed
  qed
qed

lemma id_rewrite_no_block:
  assumes "id_field_rewritten kw v s s'" "123 \<notin> set v" "\<not> has_linux_block s"
  shows "\<not> has_linux_block s'"
proof
  assume b: "has_linux_block s'"
  from assms(1) obtain pre ws q old post where
    s: "s = pre @ kw @ ws @ q # old @ q # post" and
    s': "s' = pre @ kw @ ws @ 34 # v @ 34 # q # post" and q: "is_quote q"
    unfolding id_field_rewritten_def by blast
  have "s' = (pre @ kw @ ws) @ (34 # v @ [34]) @ q # post" using s' by simp
  moreover have "123 \<notin> set (34 # v @ [34])" using assms(2) by simp
  ultimately have "has_linux_block (pre @ kw @ ws) \<or> has_linux_block post"
    using b q block_in_replacement by metis
  then show False
  proof
    assume "has_linux_block (pre @ kw @ ws)"
    then have "has_linux_block ((pre @ kw @ ws) @ q # old @ q # post)"
      by (rule has_linux_block_prefix)
    then show False using assms(3) s by simp
  next
    assume "has_linux_block post"
    then have "has_linux_block ((pre @ kw @ ws @ q # old @ [q]) @ post)"
      by (rule has_linux_block_suffix)
    then show False using assms(3) s by simp
  qed
qed

lemma field_rewrite_no_block:
  assumes "field_rewritten wb kw name s s'" "123 \<notin> set name" "\<not> has_linux_block s"
  shows "\<not> has_linux_block s'"
proof
  assume b: "has_linux_block s'"
  from assms(1) obtain pre ws mid ws2 q old post where
    s: "s = pre @ kw @ ws @ js ''{'' @ mid @ js ''executableName:'' @ ws2 @ q # old @ q # post" and
    s': "s' = pre @ kw @ ws @ js ''{'' @ mid @ js ''executableName:'' @ ws2 @ q # name @ q # post"
    and q: "is_quote q"
    unfolding field_rewritten_def by blast
  let ?x = "pre @ kw @ ws @ js ''{'' @ mid @ js ''executableName:'' @ ws2 @ [q]"
  have "s' = ?x @ name @ q # post" using s' by simp
  then have "has_linux_block ?x \<or> has_linux_block post"
    using b q assms(2) block_in_replacement by metis
  then show False
  proof
    assume "has_linux_block ?x"
    then have "has_linux_block (?x @ old @ q # post)" by (rule has_linux_block_prefix)
    then show False using assms(3) s by simp
  next
    assume "has_linux_block post"
    then have "has_linux_block ((?x @ old @ [q]) @ post)" by (rule has_linux_block_suffix)
    then show False using assms(3) s by simp
  qed
qed

lemma alignWin_no_block:
  assumes "123 \<notin> set name" "\<not> has_linux_block s"
  shows "\<not> has_linux_block (alignWinExecutableName s name)"
proof (cases "test win_test_re s")
  case True
  then have a: "alignWinExecutableName s name = replace_with win_re s (keep_quotes name)"
    by (simp add: alignWinExecutableName_def)
  from replace_with_win [of s name] show ?thesis
  proof
    assume "replace_with win_re s (keep_quotes name) = s \<and>
      \<not> (\<exists>t. field_rewritten True (js ''win:'') name s t)"
    then show ?thesis using a assms(2) by simp
  next
    assume "field_rewritten True (js ''win:'') name s (replace_with win_re s (keep_quotes name))"
    then show ?thesis unfolding a using assms by (rule field_rewrite_no_block)
  qed
next
  case False
  then show ?thesis using assms(2) by (simp add: alignWinExecutableName_def)
qed

lemma has_linux_block_includes: "has_linux_block s \<Longrightarrow> str_includes s (js ''linux:'')"
  unfolding str_includes_iff has_linux_block_def by blast

lemma ensureLinux_no_block:
  assumes "\<not> has_linux_block content"
  shows "ensureLinuxExecutableName content name
       = Inl (PatternNotFound ''electron-builder linux.executableName insertion'' (source linux_insert_re))"
proof -
  have 1: "\<not> test linux_test_re content"
    using assms exec_field_block by (auto simp: test_linux_test_iff)
  have 2: "\<not> test linux_insert_re content"
    using assms has_anchor_block by (auto simp: test_linux_insert_iff)
  show ?thesis using 1 2 by (simp add: ensureLinuxExecutableName_def replaceOrThrow_def)
qed

lemma replaceOrThrow_cases:
  "(\<exists>c. replaceOrThrow s re t what = Inr c) \<or> replaceOrThrow s re t what = Inl (PatternNotFound what (source re))"
  by (simp add: replaceOrThrow_def)

lemma first_match_upt:
  "first_match s r [k..<n] = Some (i, j, c) \<Longrightarrow>
     k \<le> i \<and> i < n \<and> (\<forall>i'. k \<le> i' \<and> i' < i \<longrightarrow> run s r (i', \<lambda>_. None) = []) \<and>
     (\<exists>rest. run s r (i, \<lambda>_. None) = (j, c) # rest)"
proof (induction "n - k" arbitrary: k)
  case 0
  then show ?case by simp
next
  case (Suc m)
  then have kn: "k < n" by simp
  then have u: "[k..<n] = k # [Suc k..<n]" by (rule upt_conv_Cons)
  show ?case
  proof (cases "run s r (k, \<lambda>_. None)")
    case Nil
    then have "first_match s r [Suc k..<n] = Some (i, j, c)" using Suc.prems u by simp
    moreover have "m = n - Suc k" using Suc.hyps(2) by simp
    ultimately have ih: "Suc k \<le> i \<and> i < n \<and>
        (\<forall>i'. Suc k \<le> i' \<and> i' < i \<longrightarrow> run s r (i', \<lambda>_. None) = []) \<and>
        (\<exists>rest. run s r (i, \<lambda>_. None) = (j, c) # rest)"
      using Suc.hyps(1) by blast
    have "run s r (i', \<lambda>_. None) = []" if "k \<le> i' \<and> i' < i" for i'
    proof (cases "i' = k")
      case True
      then show ?thesis using Nil by simp
    next
      case False
      then have "Suc k \<le> i' \<and> i' < i" using that by simp
      then show ?thesis using ih by blast
    qed
    then show ?thesis using ih by auto
  next
    case (Cons x xs)
    obtain j0 c0 where x: "x = (j0, c0)" by (cases x)
    have "first_match s r [k..<n] = Some (k, j0, c0)" unfolding u using Cons x by simp
    then have "i = k" "j = j0" "c = c0" using Suc.prems by simp_all
    then show ?thesis using Cons x kn by (auto simp del: run.simps)
  qed
qed

lemma exec_first:
  assumes "exec r s = Some (i, j, c)"
  shows "i \<le> length s" "\<And>i'. i' < i \<Longrightarrow> run s r (i', \<lambda>_. None) = []"
    "\<exists>rest. run s r (i, \<lambda>_. None) = (j, c) # rest"
  using first_match_upt [of s r 0 "length s + 1" i j c] assms unfolding exec_def by auto

lemma hd_concat_upt:
  "concat (map f [a..<n]) = y # ys \<Longrightarrow>
     \<exists>b. a \<le> b \<and> b < n \<and> (\<forall>b'. a \<le> b' \<and> b' < b \<longrightarrow> f b' = []) \<and> (\<exists>zs. f b = y # zs)"
proof (induction "n - a" arbitrary: a)
  case 0
  then show ?case by simp
next
  case (Suc m)
  then have an: "a < n" by simp
  then have u: "[a..<n] = a # [Suc a..<n]" by (rule upt_conv_Cons)
  show ?case
  proof (cases "f a")
    case Nil
    then have "concat (map f [Suc a..<n]) = y # ys" using Suc.prems u by simp
    moreover have "m = n - Suc a" using Suc.hyps(2) by simp
    ultimately obtain b where b: "Suc a \<le> b" "b < n"
      "\<forall>b'. Suc a \<le> b' \<and> b' < b \<longrightarrow> f b' = []" "\<exists>zs. f b = y # zs"
      using Suc.hyps(1) by blast
    have "f b' = []" if "a \<le> b' \<and> b' < b" for b'
    proof (cases "b' = a")
      case True
      then show ?thesis using Nil by simp
    next
      case False
      then have "Suc a \<le> b' \<and> b' < b" using that by simp
      then show ?thesis using b(3) by blast
    qed
    then show ?thesis using b by (intro exI [of _ b]) auto
  next
    case (Cons x xs)
    then have "y = x" using Suc.prems u by simp
    then show ?thesis using Cons an by (intro exI [of _ a]) auto
  qed
qed

lemma hd_concat_rev_upt:
  "concat (map f (rev [a..<n])) = y # ys \<Longrightarrow>
     \<exists>b. a \<le> b \<and> b < n \<and> (\<forall>b'. b < b' \<and> b' < n \<longrightarrow> f b' = []) \<and> (\<exists>zs. f b = y # zs)"
proof (induction "n - a" arbitrary: n)
  case 0
  then show ?case by simp
next
  case (Suc m)
  then obtain n' where n: "n = Suc n'" "a \<le> n'" by (cases n) auto
  have u: "rev [a..<n] = n' # rev [a..<n']" using n by simp
  show ?case
  proof (cases "f n'")
    case Nil
    then have "concat (map f (rev [a..<n'])) = y # ys" using Suc.prems u by simp
    moreover have "m = n' - a" using Suc.hyps(2) n by simp
    ultimately obtain b where b: "a \<le> b" "b < n'"
      "\<forall>b'. b < b' \<and> b' < n' \<longrightarrow> f b' = []" "\<exists>zs. f b = y # zs"
      using Suc.hyps(1) by blast
    have "f b' = []" if "b < b' \<and> b' < n" for b'
    proof (cases "b' = n'")
      case True
      then show ?thesis using Nil by simp
    next
      case False
      then have "b < b' \<and> b' < n'" using that n by simp
      then show ?thesis using b(3) by blast
    qed
    then show ?thesis using b n by (intro exI [of _ b]) auto
  next
    case (Cons x xs)
    then have "y = x" using Suc.prems u by simp
    then show ?thesis using Cons n by (intro exI [of _ n']) auto
  qed
qed

lemma run_Star_Class_list:
  assumes "a \<le> length s"
  shows "\<exists>e. a \<le> e \<and> e \<le> length s \<and> (\<forall>k. a \<le> k \<and> k < e \<longrightarrow> class_matches p as (s ! k)) \<and>
           (e < length s \<longrightarrow> \<not> class_matches p as (s ! e)) \<and>
           run s (Star g (Class p as)) (a, c)
             = map (\<lambda>k. (k, c)) (if g then rev [a..<Suc e] else [a..<Suc e])"
  using assms
proof (induction "length s - a" arbitrary: a)
  case 0
  then have a: "a = length s" by simp
  have "run s (Star g (Class p as)) (a, c) = [(a, c)]"
    by (subst run_Star_Class_unfold) (simp add: a)
  then show ?case using a by (intro exI [of _ a]) (auto simp del: run.simps)
next
  case (Suc m)
  then have al: "a < length s" by simp
  show ?case
  proof (cases "class_matches p as (s ! a)")
    case True
    have "m = length s - Suc a" "Suc a \<le> length s" using Suc.hyps(2) by simp_all
    then obtain e where e: "Suc a \<le> e" "e \<le> length s"
      "\<forall>k. Suc a \<le> k \<and> k < e \<longrightarrow> class_matches p as (s ! k)"
      "e < length s \<longrightarrow> \<not> class_matches p as (s ! e)"
      "run s (Star g (Class p as)) (Suc a, c)
             = map (\<lambda>k. (k, c)) (if g then rev [Suc a..<Suc e] else [Suc a..<Suc e])"
      using Suc.hyps(1) [of "Suc a"] by blast
    have u: "[a..<Suc e] = a # [Suc a..<Suc e]" using e(1) by (intro upt_conv_Cons) simp
    have r: "run s (Star g (Class p as)) (a, c)
        = (if g then run s (Star g (Class p as)) (Suc a, c) @ [(a, c)]
           else (a, c) # run s (Star g (Class p as)) (Suc a, c))"
      using al True by (subst run_Star_Class_unfold) simp
    have all: "class_matches p as (s ! k)" if "a \<le> k \<and> k < e" for k
    proof (cases "k = a")
      case True
      then show ?thesis using \<open>class_matches p as (s ! a)\<close> by simp
    next
      case False
      then have "Suc a \<le> k \<and> k < e" using that by simp
      then show ?thesis using e(3) by blast
    qed
    have "run s (Star g (Class p as)) (a, c)
        = map (\<lambda>k. (k, c)) (if g then rev [a..<Suc e] else [a..<Suc e])"
      unfolding r e(5) u by simp
    then show ?thesis using e(1,2,4) all by (intro exI [of _ e]) auto
  next
    case False
    then have "run s (Star g (Class p as)) (a, c) = [(a, c)]"
      by (subst run_Star_Class_unfold) simp
    then show ?thesis using False al by (intro exI [of _ a]) (auto simp del: run.simps)
  qed
qed

lemma run_unique:
  assumes "list_all P x" "list_all P x'" "\<not> P c" "\<not> P c'" "x @ c # r = x' @ c' # r'"
  shows "x = x' \<and> c = c' \<and> r = r'"
proof -
  have "takeWhile P (x @ c # r) = x"
    using assms(1,3) by (simp add: takeWhile_append2 list_all_iff)
  moreover have "takeWhile P (x' @ c' # r') = x'"
    using assms(2,4) by (simp add: takeWhile_append2 list_all_iff)
  ultimately have "x = x'" using assms(5) by simp
  then show ?thesis using assms(5) by simp
qed

lemma run_Seq: "run s (Seq r1 r2) st = concat (map (run s r2) (run s r1 st))"
  by simp

lemma run_Seq_Lit:
  "run s (Seq (Lit w) r) (i, c) = (if looking_at s i w then run s r (i + length w, c) else [])"
  by simp

lemma run_Group:
  "run s (Group n r) (i, c) = map (\<lambda>(j, c'). (j, c'(n \<mapsto> take (j - i) (drop i s)))) (run s r (i, c))"
  by simp

lemma looking_at_unit: "looking_at s k [x] \<longleftrightarrow> k < length s \<and> s ! k = x"
proof (cases "k < length s")
  case True
  then have "drop k s = s ! k # drop (Suc k) s" by (simp add: Cons_nth_drop_Suc)
  then show ?thesis using True by (simp add: looking_at_def)
next
  case False
  then show ?thesis by (simp add: looking_at_def)
qed

lemma concat_map_concat: "concat (map f (concat xss)) = concat (map (\<lambda>xs. concat (map f xs)) xss)"
  by (induction xss) simp_all

lemma concat_map_empty: "(\<And>x. x \<in> set xs \<Longrightarrow> f x = []) \<Longrightarrow> concat (map f xs) = []"
  by (induction xs) simp_all

lemma run_spaces_then:
  assumes a: "a \<le> length s" and sp: "span is_space s a e" and e: "e < length s" "\<not> is_space (s ! e)"
    and fail: "\<And>k. a \<le> k \<Longrightarrow> k < e \<Longrightarrow> run s r (k, c) = []"
  shows "run s (Seq (Star True space) r) (a, c) = run s r (e, c)"
proof -
  from run_Star_Class_list [OF a, of True "[CSpace]" True c]
  obtain e' where e': "a \<le> e'" "e' \<le> length s" "\<forall>k. a \<le> k \<and> k < e' \<longrightarrow> is_space (s ! k)"
    "e' < length s \<longrightarrow> \<not> is_space (s ! e')"
    "run s (Star True space) (a, c) = map (\<lambda>k. (k, c)) (rev [a..<Suc e'])"
    by (auto simp: class_matches_simps simp del: run.simps)
  have ae: "a \<le> e" using sp by (simp add: span_def)
  have "\<not> e < e'" using e(2) e'(3) ae by blast
  moreover have "\<not> e' < e"
  proof
    assume l: "e' < e"
    then have "is_space (s ! e')" using sp e'(1) by (simp add: span_def)
    moreover have "e' < length s" using l e(1) by simp
    ultimately show False using e'(4) by simp
  qed
  ultimately have eq: "e' = e" by simp
  have r: "rev [a..<Suc e] = e # rev [a..<e]" using ae by simp
  have "concat (map (\<lambda>k. run s r (k, c)) (rev [a..<e])) = []"
    using fail by (intro concat_map_empty) simp
  then show ?thesis
    unfolding run_Seq e'(5) eq r by (simp add: comp_def del: run.simps)
qed

lemma run_lazy_any_then:
  assumes "a \<le> length s"
  shows "run s (Seq (Star False anything) r) (a, c)
           = concat (map (\<lambda>b. run s r (b, c)) [a..<Suc (length s)])"
proof -
  from run_Star_Class_list [OF assms, of True "[CSpace, CNotSpace]" False c]
  obtain e where e: "e \<le> length s" "\<not> e < length s"
    "run s (Star False anything) (a, c) = map (\<lambda>k. (k, c)) [a..<Suc e]"
    by (auto simp: class_matches_simps simp del: run.simps)
  then have "e = length s" by simp
  then show ?thesis unfolding run_Seq e(3) by (simp add: comp_def del: run.simps)
qed

lemma run_head_list:
  assumes "looking_at s i kw" "span is_space s (i + length kw) a" "looking_at s a [123]" "kw \<noteq> []"
  shows "run s (Seq (Lit kw) (Seq (Star True space) (Seq (Lit [123]) (Seq (Star False anything) r)))) (i, c)
           = concat (map (\<lambda>b. run s r (b, c)) [Suc a..<Suc (length s)])"
proof -
  have i: "i + length kw \<le> length s" using assms(1,4) by (rule looking_at_bound)
  have a: "a < length s" "s ! a = 123" using assms(3) by (simp_all add: looking_at_unit)
  have ns: "\<not> is_space (s ! a)" using a(2) by (simp add: is_space_def)
  have fail: "run s (Seq (Lit [123]) (Seq (Star False anything) r)) (k, c) = []"
    if "i + length kw \<le> k" "k < a" for k
  proof -
    have "is_space (s ! k)" using assms(2) that by (simp add: span_def)
    then have "s ! k \<noteq> 123" by (auto simp: is_space_def)
    then have "\<not> looking_at s k [123]" by (simp add: looking_at_unit)
    then show ?thesis unfolding run_Seq_Lit by simp
  qed
  have "run s (Seq (Lit kw) (Seq (Star True space) (Seq (Lit [123]) (Seq (Star False anything) r)))) (i, c)
      = run s (Seq (Star True space) (Seq (Lit [123]) (Seq (Star False anything) r))) (i + length kw, c)"
    unfolding run_Seq_Lit using assms(1) by simp
  also have "\<dots> = run s (Seq (Lit [123]) (Seq (Star False anything) r)) (a, c)"
    using i assms(2) a(1) ns fail by (rule run_spaces_then)
  also have "\<dots> = run s (Seq (Star False anything) r) (Suc a, c)"
    unfolding run_Seq_Lit using assms(3) by simp
  also have "\<dots> = concat (map (\<lambda>b. run s r (b, c)) [Suc a..<Suc (length s)])"
    using a(1) by (intro run_lazy_any_then) simp
  finally show ?thesis .
qed

lemma run_field_list:
  assumes "looking_at s i kw" "span is_space s (i + length kw) a" "looking_at s a [123]" "kw \<noteq> []"
  shows "run s (Seq (Group 1 (Seq (Lit kw) (Seq (Star True space) (Seq (Lit [123])
             (Seq (Star False anything) r))))) q) (i, c)
           = concat (map (\<lambda>b. concat (map (\<lambda>(j, c'). run s q (j, c'(1 \<mapsto> take (j - i) (drop i s))))
                                    (run s r (b, c))))
                      [Suc a..<Suc (length s)])"
proof -
  have "run s (Seq (Group 1 (Seq (Lit kw) (Seq (Star True space) (Seq (Lit [123])
             (Seq (Star False anything) r))))) q) (i, c)
      = concat (map (run s q) (map (\<lambda>(j, c'). (j, c'(1 \<mapsto> take (j - i) (drop i s))))
          (concat (map (\<lambda>b. run s r (b, c)) [Suc a..<Suc (length s)]))))"
    unfolding run_Seq [of s "Group 1 _"] run_Group run_head_list [OF assms] ..
  also have "\<dots> = concat (map (\<lambda>(j, c'). run s q (j, c'(1 \<mapsto> take (j - i) (drop i s))))
          (concat (map (\<lambda>b. run s r (b, c)) [Suc a..<Suc (length s)])))"
    by (simp add: comp_def case_prod_unfold del: run.simps)
  also have "\<dots> = concat (map (\<lambda>b. concat (map (\<lambda>(j, c'). run s q (j, c'(1 \<mapsto> take (j - i) (drop i s))))
                                    (run s r (b, c))))
                      [Suc a..<Suc (length s)])"
    unfolding concat_map_concat by (simp add: comp_def del: run.simps)
  finally show ?thesis .
qed

lemma in_field_tail:
  "(j', caps) \<in> set (concat (map (\<lambda>(j, c'). run s q (j, c'(1 \<mapsto> take (j - i) (drop i s))))
        (run s (Seq WordBoundary (Seq (Lit en) (Star True space))) (b, c)))) \<longleftrightarrow>
     at_boundary s b \<and> looking_at s b en \<and>
     (\<exists>j. span is_space s (b + length en) j \<and>
        (j', caps) \<in> set (run s q (j, c(1 \<mapsto> take (j - i) (drop i s)))))"
proof -
  have t: "y \<in> set (run s (Seq WordBoundary (Seq (Lit en) (Star True space))) (b, c)) \<longleftrightarrow>
      at_boundary s b \<and> looking_at s b en \<and> (\<exists>j. y = (j, c) \<and> span is_space s (b + length en) j)"
    for y
    by (cases y) (auto simp: in_run in_run_Star_span class_matches_simps simp del: run.simps)
  show ?thesis
  proof
    assume "(j', caps) \<in> set (concat (map (\<lambda>(j, c'). run s q (j, c'(1 \<mapsto> take (j - i) (drop i s))))
        (run s (Seq WordBoundary (Seq (Lit en) (Star True space))) (b, c))))"
    then obtain y where y: "y \<in> set (run s (Seq WordBoundary (Seq (Lit en) (Star True space))) (b, c))"
      "(j', caps) \<in> set ((\<lambda>(j, c'). run s q (j, c'(1 \<mapsto> take (j - i) (drop i s)))) y)"
      unfolding set_concat set_map by blast
    from y(1) obtain j where j: "at_boundary s b" "looking_at s b en" "y = (j, c)"
      "span is_space s (b + length en) j"
      unfolding t by blast
    have "(j', caps) \<in> set (run s q (j, c(1 \<mapsto> take (j - i) (drop i s))))"
      using y(2) unfolding j(3) by (simp del: run.simps)
    then show "at_boundary s b \<and> looking_at s b en \<and>
     (\<exists>j. span is_space s (b + length en) j \<and>
        (j', caps) \<in> set (run s q (j, c(1 \<mapsto> take (j - i) (drop i s)))))"
      using j by blast
  next
    assume "at_boundary s b \<and> looking_at s b en \<and>
     (\<exists>j. span is_space s (b + length en) j \<and>
        (j', caps) \<in> set (run s q (j, c(1 \<mapsto> take (j - i) (drop i s)))))"
    then obtain j where j: "at_boundary s b" "looking_at s b en" "span is_space s (b + length en) j"
      "(j', caps) \<in> set (run s q (j, c(1 \<mapsto> take (j - i) (drop i s))))"
      by blast
    have "(j, c) \<in> set (run s (Seq WordBoundary (Seq (Lit en) (Star True space))) (b, c))"
      unfolding t using j by blast
    moreover have "(j', caps) \<in> set ((\<lambda>(j, c'). run s q (j, c'(1 \<mapsto> take (j - i) (drop i s)))) (j, c))"
      using j(4) by (simp del: run.simps)
    ultimately show "(j', caps) \<in> set (concat (map (\<lambda>(j, c'). run s q (j, c'(1 \<mapsto> take (j - i) (drop i s))))
        (run s (Seq WordBoundary (Seq (Lit en) (Star True space))) (b, c))))"
      unfolding set_concat set_map by blast
  qed
qed

lemma quote_not_space: "is_quote q \<Longrightarrow> \<not> is_space q"
  by (auto simp: is_quote_def is_space_def)

lemma replace_first_field:
  assumes fb: "first_block pre ws rest s" and ff: "first_field mid ws2 q old post rest"
  shows "replace_with linux_re s (keep_quotes name)
     = pre @ js ''linux:'' @ ws @ [123] @ mid @ js ''executableName:'' @ ws2 @ q # name @ q # post"
proof -
  let ?kw = "js ''linux:''" and ?en = "js ''executableName:''"
  define T where "T = Seq WordBoundary (Seq (Lit ?en) (Star True space))"
  let ?i = "length pre"
  let ?a = "?i + length ?kw + length ws"
  let ?b = "?a + length [123::nat] + length mid"
  let ?j = "?b + length ?en + length ws2"
  define G where "G = (\<lambda>b. concat (map (\<lambda>(j, c'). run s quoted_value (j, c'(1 \<mapsto> take (j - ?i) (drop ?i s))))
                      (run s T (b, \<lambda>_. None))))"
  from fb have s0: "s = pre @ ?kw @ ws @ [123] @ rest" and ws: "list_all is_space ws"
    and first: "\<And>pre' ws' rest'. opens_block pre' ws' rest' s \<Longrightarrow> length pre \<le> length pre'"
    unfolding first_block_def opens_block_def by blast+
  from ff have rest: "rest = mid @ ?en @ ws2 @ q # old @ q # post"
    and nb: "\<not> is_word (last (123 # mid))" and ws2: "list_all is_space ws2"
    and q: "is_quote q" "old \<noteq> []" "list_all (\<lambda>c. \<not> is_quote c) old"
    and firstf: "\<And>mid' ws2' q' old' post'. field_in mid' ws2' q' old' post' rest
        \<Longrightarrow> length mid \<le> length mid'"
    unfolding first_field_def field_in_def by blast+
  have s: "s = pre @ ?kw @ ws @ [123] @ mid @ ?en @ ws2 @ (q # old @ q # post)"
    using s0 rest by simp
  have nb': "\<not> is_word (last ([123] @ mid))" using nb by simp
  have o: "[123::nat] \<noteq> []" by simp
  note h = head_parts_compose [OF s ws ws2 nb' o js_nonempty(4) is_word_heads(3)]
  have ob: "js ''{'' = [123]" by (simp add: js_def)
  have pat: "pattern linux_re = Seq (Group 1 (Seq (Lit ?kw) (Seq (Star True space)
      (Seq (Lit [123]) (Seq (Star False anything) T))))) quoted_value"
    unfolding pattern_linux_re ob T_def ..
  have L: "run s (pattern linux_re) (?i, \<lambda>_. None) = concat (map G [Suc ?a..<Suc (length s)])"
    unfolding pat G_def using h(1,2,3) js_nonempty(1) by (rule run_field_list)
  let ?p = "pre @ ?kw @ ws @ [123] @ mid @ ?en @ ws2"
  have lp: "length ?p = ?j" by simp
  have sp: "s = ?p @ q # old @ q # post" using s by simp
  let ?caps = "((\<lambda>_. None)(1 \<mapsto> take (?j - ?i) (drop ?i s)))(2 \<mapsto> [q], 3 \<mapsto> old, 4 \<mapsto> [q])"
  have v: "(length ?p + length old + 2, ?caps)
      \<in> set (run s quoted_value (length ?p, (\<lambda>_. None)(1 \<mapsto> take (?j - ?i) (drop ?i s))))"
    using sp q by (rule value_compose)
  have gb: "(?j + length old + 2, ?caps) \<in> set (G ?b)"
    unfolding G_def T_def in_field_tail using h(4,5,6) v unfolding lp by blast
  have bs: "Suc ?a \<le> ?b" "?b < Suc (length s)" by (simp_all add: s)
  have ne: "run s (pattern linux_re) (?i, \<lambda>_. None) \<noteq> []"
  proof
    assume "run s (pattern linux_re) (?i, \<lambda>_. None) = []"
    then have "concat (map G [Suc ?a..<Suc (length s)]) = []" using L by simp
    then have "\<forall>x\<in>set [Suc ?a..<Suc (length s)]. G x = []" by simp
    moreover have "?b \<in> set [Suc ?a..<Suc (length s)]" using bs by auto
    ultimately have "G ?b = []" by blast
    then show False using gb by simp
  qed
  have il: "?i \<le> length s" by (simp add: s)
  have "exec (pattern linux_re) s \<noteq> None"
    unfolding exec_None_iff using ne il by blast
  then obtain i j' caps where m: "exec (pattern linux_re) s = Some (i, j', caps)" by auto
  note ef = exec_first [OF m]
  have "\<not> ?i < i" using ef(2) [of ?i] ne by blast
  moreover have "\<not> i < ?i"
  proof
    assume l: "i < ?i"
    from ef(3) have "(j', caps) \<in> set (run s (pattern linux_re) (i, \<lambda>_. None))" by auto
    then have "field_at False ?kw s i j' caps" unfolding in_run_linux_re .
    then obtain j a b where ab: "looking_at s i ?kw" "span is_space s (i + length ?kw) a"
      "looking_at s a (js ''{'')" "span (\<lambda>c. True) s (a + length (js ''{'')) b" "at_boundary s b"
      "looking_at s b ?en" "span is_space s (b + length ?en) j"
      unfolding field_at_def head_at_def by blast
    from head_parts_decomp [OF ab js_nonempty(1,2,4) is_word_heads(3)]
    obtain ws' mid' ws2' where d: "drop i s = ?kw @ ws' @ js ''{'' @ mid' @ ?en @ ws2' @ drop j s"
      "list_all is_space ws'"
      by blast
    have "s = take i s @ drop i s" by simp
    then have "s = take i s @ ?kw @ ws' @ [123] @ (mid' @ ?en @ ws2' @ drop j s)"
      using d(1) ob by simp
    then have "opens_block (take i s) ws' (mid' @ ?en @ ws2' @ drop j s) s"
      unfolding opens_block_def using d(2) by simp
    then have "length pre \<le> length (take i s)" by (rule first)
    then show False using l by simp
  qed
  ultimately have i: "i = ?i" by simp
  from ef(3) obtain more where "concat (map G [Suc ?a..<Suc (length s)]) = (j', caps) # more"
    unfolding i L by blast
  from hd_concat_upt [OF this] obtain b where b: "Suc ?a \<le> b" "b < Suc (length s)"
    "\<forall>b'. Suc ?a \<le> b' \<and> b' < b \<longrightarrow> G b' = []" "\<exists>zs. G b = (j', caps) # zs"
    by blast
  have ble: "b \<le> ?b"
  proof (rule ccontr)
    assume "\<not> b \<le> ?b"
    then have "G ?b = []" using b(3) bs(1) by simp
    then show False using gb by simp
  qed
  from b(4) have "(j', caps) \<in> set (G b)" by auto
  then obtain j where t: "at_boundary s b" "looking_at s b ?en" "span is_space s (b + length ?en) j"
    "(j', caps) \<in> set (run s quoted_value (j, (\<lambda>_. None)(1 \<mapsto> take (j - ?i) (drop ?i s))))"
    unfolding G_def T_def in_field_tail by blast
  have any: "span (\<lambda>c. True) s (?a + length [123::nat]) b"
    using b(1,2) by (simp add: span_def)
  from head_parts_decomp [OF h(1,2,3) any t(1,2,3) js_nonempty(1) o js_nonempty(4) is_word_heads(3)]
  obtain ws' mid' ws2' where d: "drop ?i s = ?kw @ ws' @ [123] @ mid' @ ?en @ ws2' @ drop j s"
    "list_all is_space ws'" "list_all is_space ws2'" "\<not> is_word (last ([123] @ mid'))"
    "take (j - ?i) (drop ?i s) = ?kw @ ws' @ [123] @ mid' @ ?en @ ws2'"
    "length ws' = ?a - (?i + length ?kw)" "length mid' = b - (?a + length [123::nat])"
    by auto
  from value_decomp [OF t(4)] obtain q' old' where
    dv: "drop j s = q' # old' @ q' # drop j' s" and q': "is_quote q'" "old' \<noteq> []"
      "list_all (\<lambda>c. \<not> is_quote c) old'"
    and c: "caps = ((\<lambda>_. None)(1 \<mapsto> take (j - ?i) (drop ?i s)))(2 \<mapsto> [q'], 3 \<mapsto> old', 4 \<mapsto> [q'])"
    by auto
  have "drop ?i s = ?kw @ ws @ [123] @ rest" using s0 by simp
  then have "ws @ [123] @ rest = ws' @ [123] @ mid' @ ?en @ ws2' @ drop j s"
    using d(1) by simp
  moreover have "length ws = length ws'" using d(6) by simp
  ultimately have e1: "ws = ws'" "rest = mid' @ ?en @ ws2' @ q' # old' @ q' # drop j' s"
    using dv by simp_all
  have "field_in mid' ws2' q' old' (drop j' s) rest"
    unfolding field_in_def using e1(2) d(3,4) q' by simp
  then have "length mid \<le> length mid'" by (rule firstf)
  then have lm: "length mid = length mid'" using d(7) ble b(1) by simp
  have "mid @ (?en @ ws2 @ q # old @ q # post) = mid' @ (?en @ ws2' @ q' # old' @ q' # drop j' s)"
    using rest e1(2) by simp
  then have e2: "mid = mid'" "ws2 @ q # (old @ q # post) = ws2' @ q' # (old' @ q' # drop j' s)"
    using lm by simp_all
  from run_unique [OF ws2 d(3) quote_not_space [OF q(1)] quote_not_space [OF q'(1)] e2(2)]
  have e3: "ws2 = ws2'" "q = q'" "old @ q # post = old' @ q' # drop j' s" by blast+
  have "old = old' \<and> q = q' \<and> post = drop j' s"
    using q(3) q'(3) _ _ e3(3)
    by (rule run_unique) (simp_all add: q(1) q'(1))
  then have e4: "old = old'" "post = drop j' s" by simp_all
  have k: "keep_quotes name caps = (?kw @ ws @ [123] @ mid @ ?en @ ws2) @ [q] @ name @ [q]"
    unfolding keep_quotes_def cap_text_def c d(5) e1(1) e2(1) e3(1,2) by simp
  have "replace_with linux_re s (keep_quotes name) = take ?i s @ keep_quotes name caps @ drop j' s"
    using m i by (simp add: replace_with_def)
  also have "take ?i s = pre" by (simp add: s)
  finally show ?thesis unfolding k e4(2) [symmetric] by simp
qed

lemma run_spaces_list:
  assumes "a \<le> length s"
  shows "\<exists>e. a \<le> e \<and> e \<le> length s \<and> span is_space s a e \<and> (e < length s \<longrightarrow> \<not> is_space (s ! e)) \<and>
           run s (Seq (Star True space) r) (a, c)
             = concat (map (\<lambda>k. run s r (k, c)) (rev [a..<Suc e]))"
proof -
  from run_Star_Class_list [OF assms, of True "[CSpace]" True c]
  obtain e where e: "a \<le> e" "e \<le> length s" "\<forall>k. a \<le> k \<and> k < e \<longrightarrow> is_space (s ! k)"
    "e < length s \<longrightarrow> \<not> is_space (s ! e)"
    "run s (Star True space) (a, c) = map (\<lambda>k. (k, c)) (rev [a..<Suc e])"
    by (auto simp: class_matches_simps simp del: run.simps)
  have "span is_space s a e" unfolding span_def using e(1,2,3) by auto
  moreover have "run s (Seq (Star True space) r) (a, c)
      = concat (map (\<lambda>k. run s r (k, c)) (rev [a..<Suc e]))"
    unfolding run_Seq e(5) by (simp add: comp_def del: run.simps)
  ultimately show ?thesis using e(1,2,4) by blast
qed

lemma span_part:
  assumes "span P s a e" "a \<le> k" "k \<le> m" "m \<le> e"
  shows "span P s k m"
  using assms unfolding span_def by auto

lemma insert_first_line:
  assumes fb: "first_block pre ws rest s" and r: "rest = ws' @ 10 # post" "list_all is_space ws'"
    and g: "\<not> (\<exists>w t. post = w @ 10 # t \<and> list_all is_space w)" and n: "36 \<notin> set name"
  shows \<open>replace linux_insert_re s (js ''$1    executableName: "'' @ name @ js ''",'' @ [10])
     = pre @ js ''linux:'' @ ws @ [123] @ ws' @ [10]
       @ js ''    executableName: "'' @ name @ js ''",'' @ [10] @ post\<close>
proof -
  let ?kw = "js ''linux:''"
  let ?i = "length pre"
  let ?a = "?i + length ?kw + length ws"
  let ?k = "Suc ?a + length ws'"
  define tail where "tail = Seq (Star True space) (Lit [10])"
  from fb have s0: "s = pre @ ?kw @ ws @ [123] @ rest" and ws: "list_all is_space ws"
    and first: "\<And>pre' ws' rest'. opens_block pre' ws' rest' s \<Longrightarrow> length pre \<le> length pre'"
    unfolding first_block_def opens_block_def by blast+
  have s: "s = pre @ ?kw @ ws @ [123] @ ws' @ [10] @ post" using s0 r(1) by simp
  have ob: "js ''{'' = [123]" by (simp add: js_def)
  have 1: "looking_at s ?i ?kw" unfolding s by (rule looking_at_append)
  have "s = (pre @ ?kw) @ ws @ ([123] @ ws' @ [10] @ post)" by (simp add: s)
  then have 2: "span is_space s (?i + length ?kw) ?a"
    using span_at [of "pre @ ?kw" "?i + length ?kw" is_space ws ?a] ws by simp
  have "s = (pre @ ?kw @ ws) @ [123] @ (ws' @ [10] @ post)" by (simp add: s)
  then have 3: "looking_at s ?a [123]"
    using looking_at_at [of "pre @ ?kw @ ws" ?a "[123]"] by simp
  have "s = (pre @ ?kw @ ws @ [123]) @ ws' @ ([10] @ post)" by (simp add: s)
  then have 4: "span is_space s (Suc ?a) ?k"
    using span_at [of "pre @ ?kw @ ws @ [123]" "Suc ?a" is_space ws' ?k] r(2) by simp
  have "s = (pre @ ?kw @ ws @ [123] @ ws') @ [10] @ post" by (simp add: s)
  then have 5: "looking_at s ?k [10]"
    using looking_at_at [of "pre @ ?kw @ ws @ [123] @ ws'" ?k "[10]"] by simp
  have pat: "pattern linux_insert_re
      = Group 1 (Seq (Lit ?kw) (Seq (Star True space) (Seq (Lit [123]) tail)))"
    unfolding pattern_linux_insert_re ob tail_def ..
  have il: "?i \<le> length s" by (simp add: s)
  have kl: "?k < length s" "s ! ?k = 10" using 5 by (simp_all add: looking_at_unit)
  have al: "?a < length s" "s ! ?a = 123" using 3 by (simp_all add: looking_at_unit)
  have kwl: "?i + length ?kw \<le> length s" by (simp add: s)
  have fail: "run s (Seq (Lit [123]) tail) (k, \<lambda>_. None) = []"
    if "?i + length ?kw \<le> k" "k < ?a" for k
  proof -
    have "is_space (s ! k)" using 2 that by (simp add: span_def)
    then have "s ! k \<noteq> 123" by (auto simp: is_space_def)
    then have "\<not> looking_at s k [123]" by (simp add: looking_at_unit)
    then show ?thesis unfolding run_Seq_Lit by simp
  qed
  have "\<not> is_space (s ! ?a)" using al(2) by (simp add: is_space_def)
  with kwl 2 al(1) have "run s (Seq (Star True space) (Seq (Lit [123]) tail)) (?i + length ?kw, \<lambda>_. None)
      = run s (Seq (Lit [123]) tail) (?a, \<lambda>_. None)"
    using fail by (rule run_spaces_then)
  then have A: "run s (Seq (Lit ?kw) (Seq (Star True space) (Seq (Lit [123]) tail))) (?i, \<lambda>_. None)
      = run s tail (Suc ?a, \<lambda>_. None)"
    unfolding run_Seq_Lit [of s ?kw] run_Seq_Lit [of s "[123]"] using 1 3 by simp
  have "Suc ?a \<le> length s" using al(1) by simp
  from run_spaces_list [OF this, of "Lit [10]" "\<lambda>_. None"]
  obtain e where e: "Suc ?a \<le> e" "e \<le> length s" "span is_space s (Suc ?a) e"
    "e < length s \<longrightarrow> \<not> is_space (s ! e)"
    "run s tail (Suc ?a, \<lambda>_. None)
       = concat (map (\<lambda>k. run s (Lit [10]) (k, \<lambda>_. None)) (rev [Suc ?a..<Suc e]))"
    unfolding tail_def by blast
  have ke: "?k < e"
  proof (rule ccontr)
    assume "\<not> ?k < e"
    then have ek: "e \<le> ?k" by simp
    then have el: "e < length s" using kl(1) by simp
    have "is_space (s ! e)"
    proof (cases "e = ?k")
      case True
      then show ?thesis using kl(2) by (simp add: is_space_def)
    next
      case False
      then show ?thesis using 4 e(1) ek by (simp add: span_def)
    qed
    then show False using e(4) el by simp
  qed
  have L: "run s (pattern linux_insert_re) (?i, \<lambda>_. None)
      = map (\<lambda>(j, c'). (j, c'(1 \<mapsto> take (j - ?i) (drop ?i s))))
          (concat (map (\<lambda>k. run s (Lit [10]) (k, \<lambda>_. None)) (rev [Suc ?a..<Suc e])))"
    unfolding pat run_Group A e(5) ..
  have "run s (Lit [10]) (?k, \<lambda>_. None) \<noteq> []" using 5 by simp
  moreover have "?k \<in> set (rev [Suc ?a..<Suc e])" using ke by auto
  ultimately have "concat (map (\<lambda>k. run s (Lit [10]) (k, \<lambda>_. None)) (rev [Suc ?a..<Suc e])) \<noteq> []"
    unfolding concat_eq_Nil_conv set_map by blast
  then have ne: "run s (pattern linux_insert_re) (?i, \<lambda>_. None) \<noteq> []" unfolding L by simp
  have "exec (pattern linux_insert_re) s \<noteq> None"
    unfolding exec_None_iff using ne il by blast
  then obtain i j caps where m: "exec (pattern linux_insert_re) s = Some (i, j, caps)" by auto
  note ef = exec_first [OF m]
  have "\<not> ?i < i" using ef(2) [of ?i] ne by blast
  moreover have "\<not> i < ?i"
  proof
    assume l: "i < ?i"
    from ef(3) have "(j, caps) \<in> set (run s (pattern linux_insert_re) (i, \<lambda>_. None))" by auto
    then obtain a b where ab: "looking_at s i ?kw" "span is_space s (i + length ?kw) a"
      "looking_at s a (js ''{'')" "span is_space s (a + length (js ''{'')) b" "looking_at s b [10]"
      unfolding pattern_linux_insert_re in_run_anchor by blast
    from anchor_decomp [OF ab js_nonempty(1,2)] obtain w w' where
      d: "drop i s = ?kw @ w @ js ''{'' @ w' @ [10] @ drop (b + length [10::nat]) s"
        "list_all is_space w"
      by blast
    have "s = take i s @ drop i s" by simp
    then have "s = take i s @ ?kw @ w @ [123] @ (w' @ [10] @ drop (b + length [10::nat]) s)"
      using d(1) ob by simp
    then have "opens_block (take i s) w (w' @ [10] @ drop (b + length [10::nat]) s) s"
      unfolding opens_block_def using d(2) by simp
    then have "length pre \<le> length (take i s)" by (rule first)
    then show False using l by simp
  qed
  ultimately have i: "i = ?i" by simp
  from ef(3) obtain more where hdm: "map (\<lambda>(j, c'). (j, c'(1 \<mapsto> take (j - ?i) (drop ?i s))))
          (concat (map (\<lambda>k. run s (Lit [10]) (k, \<lambda>_. None)) (rev [Suc ?a..<Suc e])))
        = (j, caps) # more"
    unfolding i L by (elim exE)
  then obtain y ys where y: "concat (map (\<lambda>k. run s (Lit [10]) (k, \<lambda>_. None)) (rev [Suc ?a..<Suc e])) = y # ys"
    "(\<lambda>(j, c'). (j, c'(1 \<mapsto> take (j - ?i) (drop ?i s)))) y = (j, caps)"
    unfolding map_eq_Cons_conv by blast
  from hd_concat_rev_upt [OF y(1)] obtain k where k: "Suc ?a \<le> k" "k < Suc e"
    "\<forall>k'. k < k' \<and> k' < Suc e \<longrightarrow> run s (Lit [10]) (k', \<lambda>_. None) = []"
    "\<exists>zs. run s (Lit [10]) (k, \<lambda>_. None) = y # zs"
    by blast
  from k(4) have lk: "looking_at s k [10]" and yk: "y = (k + 1, \<lambda>_. None)"
    by (auto split: if_splits)
  have kge: "?k \<le> k"
  proof (rule ccontr)
    assume "\<not> ?k \<le> k"
    then have "run s (Lit [10]) (?k, \<lambda>_. None) = []" using k(3) ke by simp
    then show False using 5 by simp
  qed
  have kle: "k \<le> ?k"
  proof (rule ccontr)
    assume "\<not> k \<le> ?k"
    then have lt: "?k < k" by simp
    have kls: "k < length s" "s ! k = 10" using lk by (simp_all add: looking_at_unit)
    have sp: "span is_space s (Suc ?k) k" using e(3) _ _ _ by (rule span_part) (use lt k(2) in simp_all)
    have sk: "Suc ?k \<le> length s" using kl(1) by simp
    have d1: "drop (Suc ?k) s = seg s (Suc ?k) k @ drop k s" "list_all is_space (seg s (Suc ?k) k)"
      using span_drop [OF sp sk] by auto
    have "drop k s = s ! k # drop (Suc k) s" using kls(1) by (simp add: Cons_nth_drop_Suc)
    then have "drop (Suc ?k) s = seg s (Suc ?k) k @ 10 # drop (Suc k) s" using d1(1) kls(2) by simp
    moreover have "drop (Suc ?k) s = post" by (simp add: s)
    ultimately have "post = seg s (Suc ?k) k @ 10 # drop (Suc k) s" by simp
    then show False using g d1(2) by blast
  qed
  have keq: "k = ?k" using kge kle by simp
  have "(k + 1, (\<lambda>_. None)(1 \<mapsto> take (k + 1 - ?i) (drop ?i s))) = (j, caps)"
    using y(2) unfolding yk by (simp only: prod.case)
  then have j: "j = ?k + 1" and c: "caps = (\<lambda>_. None)(1 \<mapsto> take (?k + 1 - ?i) (drop ?i s))"
    unfolding keq by blast+
  have dj: "drop j s = post" unfolding j by (simp add: s)
  have "drop ?i s = (?kw @ ws @ [123] @ ws' @ [10]) @ post" by (simp add: s)
  moreover have "length (?kw @ ws @ [123] @ ws' @ [10]) = ?k + 1 - ?i" by simp
  ultimately have t: "take (?k + 1 - ?i) (drop ?i s) = ?kw @ ws @ [123] @ ws' @ [10]"
    using take_of_drop_eq by metis
  have c1: "cap_text caps 1 = ?kw @ ws @ [123] @ ws' @ [10]"
    unfolding c cap_text_def t by simp
  let ?line = \<open>js ''    executableName: "'' @ name @ js ''",'' @ [10]\<close>
  have gs: "getSubstitution (take (j - i) (drop i s)) (take i s) (drop j s) caps
      (count_groups (pattern linux_insert_re)) (36 # 49 # ?line) = cap_text caps 1 @ ?line"
    using n by (intro getSubstitution_dollar1) (simp_all add: js_def is_digit_def linux_insert_re_def)
  have "replace linux_insert_re s (36 # 49 # ?line) = take i s @ (cap_text caps 1 @ ?line) @ drop j s"
    unfolding replace_def m by (simp only: option.case prod.case gs)
  also have "take i s = pre" unfolding i by (simp add: s)
  finally show ?thesis unfolding insert_template c1 dj by simp
qed

lemma first_field_exec_field:
  assumes "first_block pre ws rest s" "first_field mid ws2 q old post rest"
  shows "exec_field_after False (js ''linux:'') s"
proof -
  from assms have "s = pre @ js ''linux:'' @ ws @ js ''{'' @ mid @ js ''executableName:'' @ ws2 @ q # (old @ q # post)"
    "list_all is_space ws" "\<not> is_word (last (js ''{'' @ mid))" "list_all is_space ws2" "is_quote q"
    unfolding first_block_def opens_block_def first_field_def field_in_def by (simp_all add: js_def)
  then show ?thesis unfolding exec_field_after_def by blast
qed

lemma first_block_anchor:
  assumes "first_block pre ws rest s" "rest = ws' @ 10 # post" "list_all is_space ws'"
  shows "has_anchor s"
proof -
  from assms have "s = pre @ js ''linux:'' @ ws @ [123] @ ws' @ [10] @ post" "list_all is_space ws"
    unfolding first_block_def opens_block_def by simp_all
  then show ?thesis unfolding has_anchor_def using assms(3) by blast
qed


lemma first_run:
  "main acme_env template_world
     = (Inr [\<lparr>file_path = ''package.json'', changed = True\<rparr>,
             \<lparr>file_path = ''electron-builder.ts'', changed = True\<rparr>,
             \<lparr>file_path = ''src/main/controllers/default-browser-controller/index.ts'', changed = True\<rparr>,
             \<lparr>file_path = ''src/main/index.ts'', changed = True\<rparr>],
        acme_world_once)"
  by (simp add: acme_env_def template_world_def template_builder_def acme_world_once_def
      acme_manifest_def acme_builder_once_def run_defs engine_defs)

lemma second_run:
  "main acme_env acme_world_once
     = (Inr [\<lparr>file_path = ''package.json'', changed = False\<rparr>,
             \<lparr>file_path = ''electron-builder.ts'', changed = True\<rparr>,
             \<lparr>file_path = ''src/main/controllers/default-browser-controller/index.ts'', changed = False\<rparr>,
             \<lparr>file_path = ''src/main/index.ts'', changed = False\<rparr>],
        acme_world_twice)"
  by (simp add: acme_env_def template_world_def template_builder_def acme_world_once_def
      acme_world_twice_def acme_manifest_def acme_builder_once_def acme_builder_twice_def
      run_defs engine_defs)

section \<open>The validation\<close>

text \<open>
  Claim C3, as amended. \<^verbatim>\<open>sanitizeSlug\<close> trims its input before it tests it: it accepts exactly
  the strings whose trimmed form has the slug format, and returns the trimmed form. A string
  whose trimmed form has not the format is refused with the error that carries the input as
  it was given; the message ends with the JSON string literal of the input, which is the
  input between double quotes when it has no character that JSON escapes. In a run the error
  leaves the files untouched (for the empty string \<^verbatim>\<open>requireEnv\<close> fails first).
\<close>

theorem slug_accepted_iff_trimmed_matches:
  "(sanitizeSlug input = Inr slug \<longleftrightarrow> slug_shape (trim input) \<and> slug = trim input) \<and>
   (\<not> slug_shape (trim input) \<longrightarrow>
      sanitizeSlug input = Inl (SlugFormat input) \<and>
      class_of (SlugFormat input) = ConfigurationError \<and>
      message (SlugFormat input) =
        js ''APP_SLUG must match /^[a-z0-9][a-z0-9-]*$/ (lowercase, digits, hyphen). Got: ''
        @ QuoteJSONString input \<and>
      (list_all plain_unit input \<longrightarrow> QuoteJSONString input = [34] @ input @ [34]) \<and>
      (env ''APP_SLUG'' = Some input \<longrightarrow>
         main env w = (Inl (if input = [] then MissingEnv ''APP_SLUG'' else SlugFormat input), w)))"
  by (auto simp: sanitizeSlug_eq main_def resolveIdentity_def requireEnv_def QuoteJSONString_def
      quote_units_plain)

theorem slug_accepted_iff_trimmed_matches_witness:
  "\<not> slug_shape (trim (js ''Foo'')) \<and>
   sanitizeSlug (js ''Foo'') = Inl (SlugFormat (js ''Foo'')) \<and>
   QuoteJSONString (js ''Foo'') = [34] @ js ''Foo'' @ [34] \<and>
   main ((\<lambda>name. None)(''APP_SLUG'' \<mapsto> js ''Foo'')) template_world
     = (Inl (SlugFormat (js ''Foo'')), template_world)"
proof -
  have n: "\<not> slug_shape (trim (js ''Foo''))"
    by (simp add: slug_shape_def trim_def is_space_def js_def)
  have p: "list_all plain_unit (js ''Foo'')"
    by (simp add: plain_unit_def js_def)
  have e: "((\<lambda>name. None)(''APP_SLUG'' \<mapsto> js ''Foo'')) ''APP_SLUG'' = Some (js ''Foo'')"
    by simp
  have f: "js ''Foo'' \<noteq> []" by (simp add: js_def)
  show ?thesis
    using slug_accepted_iff_trimmed_matches
      [of "js ''Foo''" "[]" "(\<lambda>name. None)(''APP_SLUG'' \<mapsto> js ''Foo'')" template_world] n p e f
    by simp
qed

text \<open>
  The claim as the specification states it fails: the string \<^verbatim>\<open>" acme"\<close> has not the slug
  format, and the validation accepts it.
\<close>

theorem padded_slug_is_accepted:
  "\<not> slug_shape (js '' acme'') \<and>
   sanitizeSlug (js '' acme'') = Inr (js ''acme'') \<and>
   resolveIdentity ((\<lambda>name. None)(''APP_SLUG'' \<mapsto> js '' acme'', ''APP_PRODUCT_NAME'' \<mapsto> js ''Acme''))
     = Inr \<lparr>appSlug = js ''acme'', productName = js ''Acme'', appId = js ''dev.sun.acme'',
             packageName = js ''acme-browser'', desktopFile = js ''acme.desktop''\<rparr>"
  by (simp add: validate_defs)

text \<open>
  Claim C8. When the validation fails, \<^verbatim>\<open>main\<close> ends with that error, which is one of the
  three configuration errors, and the files and the log of file operations are what they
  were: no file has been read or written.
\<close>

theorem validation_failure_before_file_access:
  "resolveIdentity env = Inl e \<Longrightarrow>
     main env w = (Inl e, w) \<and> class_of e = ConfigurationError \<and>
     (e = MissingEnv ''APP_SLUG'' \<or> e = MissingEnv ''APP_PRODUCT_NAME'' \<or>
      e = ProductNameEmpty \<or> (\<exists>input. e = SlugFormat input))"
  by (auto simp: main_def resolveIdentity_def requireEnv_def sanitizeSlug_def Let_def
      split: sum.splits if_splits option.splits)

theorem validation_failure_before_file_access_witness:
  "resolveIdentity (\<lambda>name. None) = Inl (MissingEnv ''APP_SLUG'') \<and>
   main (\<lambda>name. None) template_world = (Inl (MissingEnv ''APP_SLUG''), template_world)"
proof -
  have r: "resolveIdentity (\<lambda>name. None) = Inl (MissingEnv ''APP_SLUG'')"
    by (simp add: resolveIdentity_def requireEnv_def)
  from validation_failure_before_file_access [OF r, of template_world] r show ?thesis by simp
qed

text \<open>
  Claim C9. \<^verbatim>\<open>requireEnv\<close> treats a variable set to the empty string as an unset one: the
  error is the missing-variable error that names it, for \<^verbatim>\<open>APP_SLUG\<close> and (once the slug is
  valid) for \<^verbatim>\<open>APP_PRODUCT_NAME\<close>, and the whole run is the run with the variable unset.
\<close>

theorem empty_required_variable_is_missing:
  "requireEnv (env(name \<mapsto> [])) name = Inl (MissingEnv name) \<and>
   requireEnv (env(name := None)) name = Inl (MissingEnv name) \<and>
   resolveIdentity (env(''APP_SLUG'' \<mapsto> [])) = Inl (MissingEnv ''APP_SLUG'') \<and>
   main (env(''APP_SLUG'' \<mapsto> [])) w = main (env(''APP_SLUG'' := None)) w \<and>
   main (env(''APP_PRODUCT_NAME'' \<mapsto> [])) w = main (env(''APP_PRODUCT_NAME'' := None)) w \<and>
   (env ''APP_SLUG'' = Some v \<and> v \<noteq> [] \<and> slug_shape (trim v) \<longrightarrow>
      resolveIdentity (env(''APP_PRODUCT_NAME'' \<mapsto> [])) = Inl (MissingEnv ''APP_PRODUCT_NAME''))"
  by (auto simp: main_def resolveIdentity_def requireEnv_def sanitizeSlug_eq
      split: sum.splits option.splits)

theorem empty_required_variable_is_missing_witness:
  "slug_shape (trim (js ''acme'')) \<and>
   resolveIdentity ((\<lambda>name. None)(''APP_SLUG'' \<mapsto> js ''acme'', ''APP_PRODUCT_NAME'' \<mapsto> []))
     = Inl (MissingEnv ''APP_PRODUCT_NAME'') \<and>
   main ((\<lambda>name. None)(''APP_SLUG'' \<mapsto> [])) template_world
     = main ((\<lambda>name. None)(''APP_SLUG'' := None)) template_world"
proof -
  have a: "((\<lambda>name. None)(''APP_SLUG'' \<mapsto> js ''acme'')) ''APP_SLUG'' = Some (js ''acme'')" by simp
  have b: "js ''acme'' \<noteq> []" by (simp add: js_def)
  have c: "slug_shape (trim (js ''acme''))" by (simp add: slug_shape_def trim_def is_space_def js_def)
  show ?thesis
    using empty_required_variable_is_missing
      [of "(\<lambda>name. None)(''APP_SLUG'' \<mapsto> js ''acme'')" "''APP_SLUG''" template_world "js ''acme''"]
      empty_required_variable_is_missing [of "\<lambda>name. None" "''APP_SLUG''" template_world "[]"]
      a b c
    by simp
qed

text \<open>
  Claim C10. In every environment that passes the validation, the run uses the trimmed slug
  and product name, and for each of \<^verbatim>\<open>APP_ID\<close>, \<^verbatim>\<open>APP_PACKAGE_NAME\<close> and \<^verbatim>\<open>DESKTOP_FILE\<close> the default
  derived from the slug when the variable is unset, and otherwise the trimmed value of the
  variable, whatever it is. Trimming gives the empty string for a value that is empty or all
  whitespace, and removes the whitespace around any other value.
\<close>

theorem optional_default_only_when_unset:
  "(env ''APP_SLUG'' = Some raw_slug \<and> slug_shape (trim raw_slug) \<and>
    env ''APP_PRODUCT_NAME'' = Some raw_name \<and> trim raw_name \<noteq> [] \<longrightarrow>
      resolveIdentity env
        = Inr \<lparr>appSlug = trim raw_slug,
               productName = trim raw_name,
               appId = (case env ''APP_ID'' of
                          None \<Rightarrow> js ''dev.sun.'' @ trim raw_slug | Some v \<Rightarrow> trim v),
               packageName = (case env ''APP_PACKAGE_NAME'' of
                          None \<Rightarrow> trim raw_slug @ js ''-browser'' | Some v \<Rightarrow> trim v),
               desktopFile = (case env ''DESKTOP_FILE'' of
                          None \<Rightarrow> trim raw_slug @ js ''.desktop'' | Some v \<Rightarrow> trim v)\<rparr>) \<and>
   (list_all is_space v \<longrightarrow> trim v = []) \<and>
   (list_all is_space a \<and> list_all is_space b \<and> core \<noteq> [] \<and>
    \<not> is_space (hd core) \<and> \<not> is_space (last core) \<longrightarrow> trim (a @ core @ b) = core)"
proof (intro conjI impI)
  assume h: "env ''APP_SLUG'' = Some raw_slug \<and> slug_shape (trim raw_slug) \<and>
    env ''APP_PRODUCT_NAME'' = Some raw_name \<and> trim raw_name \<noteq> []"
  then have s: "slug_shape (trim raw_slug)" by simp
  have 1: "raw_slug \<noteq> []" using s by (auto simp: slug_shape_def trim_def)
  have 2: "raw_name \<noteq> []" using h by (auto simp: trim_def)
  show "resolveIdentity env
        = Inr \<lparr>appSlug = trim raw_slug,
               productName = trim raw_name,
               appId = (case env ''APP_ID'' of
                          None \<Rightarrow> js ''dev.sun.'' @ trim raw_slug | Some v \<Rightarrow> trim v),
               packageName = (case env ''APP_PACKAGE_NAME'' of
                          None \<Rightarrow> trim raw_slug @ js ''-browser'' | Some v \<Rightarrow> trim v),
               desktopFile = (case env ''DESKTOP_FILE'' of
                          None \<Rightarrow> trim raw_slug @ js ''.desktop'' | Some v \<Rightarrow> trim v)\<rparr>"
    using h 1 2 trim_defaults [OF s]
    by (simp add: resolveIdentity_def requireEnv_def sanitizeSlug_eq split: option.splits)
next
  assume "list_all is_space v"
  then show "trim v = []" by (rule trim_spaces)
next
  assume "list_all is_space a \<and> list_all is_space b \<and> core \<noteq> [] \<and>
    \<not> is_space (hd core) \<and> \<not> is_space (last core)"
  then show "trim (a @ core @ b) = core" by (intro trim_core) simp_all
qed

theorem optional_default_only_when_unset_witness:
  "resolveIdentity ((\<lambda>name. None)(''APP_SLUG'' \<mapsto> js ''acme'', ''APP_PRODUCT_NAME'' \<mapsto> js ''Acme'',
       ''APP_ID'' \<mapsto> js '' com.acme.app  '', ''DESKTOP_FILE'' \<mapsto> []))
     = Inr \<lparr>appSlug = js ''acme'', productName = js ''Acme'', appId = js ''com.acme.app'',
             packageName = js ''acme-browser'', desktopFile = []\<rparr> \<and>
   resolveIdentity ((\<lambda>name. None)(''APP_SLUG'' \<mapsto> js ''acme'', ''APP_PRODUCT_NAME'' \<mapsto> js ''Acme'',
       ''APP_PACKAGE_NAME'' \<mapsto> js ''  ''))
     = Inr \<lparr>appSlug = js ''acme'', productName = js ''Acme'', appId = js ''dev.sun.acme'',
             packageName = [], desktopFile = js ''acme.desktop''\<rparr>"
proof -
  let ?e1 = "(\<lambda>name. None)(''APP_SLUG'' \<mapsto> js ''acme'', ''APP_PRODUCT_NAME'' \<mapsto> js ''Acme'',
       ''APP_ID'' \<mapsto> js '' com.acme.app  '', ''DESKTOP_FILE'' \<mapsto> [])"
  let ?e2 = "(\<lambda>name. None)(''APP_SLUG'' \<mapsto> js ''acme'', ''APP_PRODUCT_NAME'' \<mapsto> js ''Acme'',
       ''APP_PACKAGE_NAME'' \<mapsto> js ''  '')"
  have s: "trim (js ''acme'') = js ''acme''" "trim (js ''Acme'') = js ''Acme''"
    by (simp_all add: trim_def is_space_def js_def)
  have sh: "slug_shape (js ''acme'')" by (simp add: slug_shape_def js_def)
  have ne: "js ''Acme'' \<noteq> []" by (simp add: js_def)
  have sp: "list_all is_space (js ''  '')" "list_all is_space (js '' '')" "list_all is_space []"
    by (simp_all add: is_space_def js_def)
  have core: "js ''com.acme.app'' \<noteq> []" "\<not> is_space (hd (js ''com.acme.app''))"
    "\<not> is_space (last (js ''com.acme.app''))"
    by (simp_all add: is_space_def js_def)
  have split: "js '' com.acme.app  '' = js '' '' @ js ''com.acme.app'' @ js ''  ''"
    by (simp add: js_def)
  have t1: "trim (js '' com.acme.app  '') = js ''com.acme.app''"
    using optional_default_only_when_unset
      [of ?e1 "js ''acme''" "js ''Acme''" "[]" "js '' ''" "js ''  ''" "js ''com.acme.app''"]
      sp core split
    by simp
  have t2: "trim (js ''  '') = []" "trim [] = []"
    using optional_default_only_when_unset
      [of ?e2 "js ''acme''" "js ''Acme''" "js ''  ''" "[]" "[]" "js ''x''"]
      optional_default_only_when_unset
      [of ?e2 "js ''acme''" "js ''Acme''" "[]" "[]" "[]" "js ''x''"] sp
    by simp_all
  have a: "js ''dev.sun.'' @ js ''acme'' = js ''dev.sun.acme''"
    "js ''acme'' @ js ''-browser'' = js ''acme-browser''"
    "js ''acme'' @ js ''.desktop'' = js ''acme.desktop''"
    by (simp_all add: js_def)
  show ?thesis
    using optional_default_only_when_unset
      [of ?e1 "js ''acme''" "js ''Acme''" "[]" "[]" "[]" "js ''x''"]
      optional_default_only_when_unset
      [of ?e2 "js ''acme''" "js ''Acme''" "[]" "[]" "[]" "js ''x''"]
      s sh ne t1 t2 a
    by simp
qed

section \<open>The builder configuration\<close>

text \<open>
  Claim C4, as amended. \<^verbatim>\<open>ensureLinuxExecutableName\<close> works on the first \<^verbatim>\<open>linux:\<close> that whitespace and
  an opening brace follow. When the block has an \<^verbatim>\<open>executableName\<close> field with a non-empty quoted
  value, the value of the first such field is replaced in place, between the quotes it had,
  and nothing else changes. When no \<^verbatim>\<open>executableName:\<close> with a quote character follows the brace,
  and whitespace with a line feed in it follows the brace, the line \<^verbatim>\<open>executableName: "<name>",\<close>
  (indented by four spaces) is inserted after the last line feed of that whitespace, for a
  name without a dollar sign: it becomes the first line of the block that is not blank. When
  no such field and no brace with a line feed after it are there, the patch fails with the
  pattern-not-found error. Code unit 10 is the line feed and 36 the dollar sign.
\<close>

theorem linux_executable_name_patch_or_insert:
  \<open>(first_block pre ws rest content \<and> first_field mid ws2 q old post rest \<and> inside_block mid \<longrightarrow>
      ensureLinuxExecutableName content name
        = Inr (pre @ js ''linux:'' @ ws @ [123] @ mid @ js ''executableName:'' @ ws2
               @ q # name @ q # post)) \<and>
   (first_block pre ws rest content \<and> \<not> exec_field_after False (js ''linux:'') content \<and>
    rest = ws' @ 10 # post \<and> list_all is_space ws' \<and>
    \<not> (\<exists>w t. post = w @ 10 # t \<and> list_all is_space w) \<and> 36 \<notin> set name \<longrightarrow>
      ensureLinuxExecutableName content name
        = Inr (pre @ js ''linux:'' @ ws @ [123] @ ws' @ [10]
               @ js ''    executableName: "'' @ name @ js ''",'' @ [10] @ post)) \<and>
   (\<not> exec_field_after False (js ''linux:'') content \<and> \<not> has_anchor content \<longrightarrow>
      ensureLinuxExecutableName content name
        = Inl (PatternNotFound ''electron-builder linux.executableName insertion''
                 (source linux_insert_re)))\<close>
proof (intro conjI impI)
  assume h: "first_block pre ws rest content \<and> first_field mid ws2 q old post rest \<and> inside_block mid"
  then have "test linux_test_re content"
    unfolding test_linux_test_iff using first_field_exec_field by blast
  then have "ensureLinuxExecutableName content name
      = Inr (replace_with linux_re content (keep_quotes name))"
    by (simp add: ensureLinuxExecutableName_def)
  moreover have "replace_with linux_re content (keep_quotes name)
      = pre @ js ''linux:'' @ ws @ [123] @ mid @ js ''executableName:'' @ ws2 @ q # name @ q # post"
    using h by (intro replace_first_field) blast+
  ultimately show "ensureLinuxExecutableName content name
        = Inr (pre @ js ''linux:'' @ ws @ [123] @ mid @ js ''executableName:'' @ ws2
               @ q # name @ q # post)"
    by simp
next
  assume h: "first_block pre ws rest content \<and> \<not> exec_field_after False (js ''linux:'') content \<and>
    rest = ws' @ 10 # post \<and> list_all is_space ws' \<and>
    \<not> (\<exists>w t. post = w @ 10 # t \<and> list_all is_space w) \<and> 36 \<notin> set name"
  then have 1: "\<not> test linux_test_re content" unfolding test_linux_test_iff by blast
  have 2: "test linux_insert_re content"
    unfolding test_linux_insert_iff using h first_block_anchor by blast
  have fb: "first_block pre ws rest content" and r: "rest = ws' @ 10 # post" "list_all is_space ws'"
    and g: "\<not> (\<exists>w t. post = w @ 10 # t \<and> list_all is_space w)" and n: "36 \<notin> set name"
    using h by blast+
  show \<open>ensureLinuxExecutableName content name
        = Inr (pre @ js ''linux:'' @ ws @ [123] @ ws' @ [10]
               @ js ''    executableName: "'' @ name @ js ''",'' @ [10] @ post)\<close>
    using 1 2 insert_first_line [OF fb r g n]
    by (simp add: ensureLinuxExecutableName_def replaceOrThrow_def)
next
  assume "\<not> exec_field_after False (js ''linux:'') content \<and> \<not> has_anchor content"
  then show "ensureLinuxExecutableName content name
        = Inl (PatternNotFound ''electron-builder linux.executableName insertion''
                 (source linux_insert_re))"
    by (simp add: ensureLinuxExecutableName_def replaceOrThrow_def test_linux_test_iff
        test_linux_insert_iff)
qed

theorem linux_executable_name_patch_or_insert_witness:
  \<open>ensureLinuxExecutableName
     (js ''linux: { executableName: 'a' }, mac: { executableName: "b" }'') (js ''acme'')
     = Inr (js ''linux: { executableName: 'acme' }, mac: { executableName: "b" }'') \<and>
   ensureLinuxExecutableName (js ''linux: {'' @ [10, 10] @ js ''  target: "deb" }'') (js ''acme'')
     = Inr (js ''linux: {'' @ [10, 10] @ js ''    executableName: "acme",'' @ [10]
            @ js ''  target: "deb" }'') \<and>
   ensureLinuxExecutableName (js ''mac: {'' @ [10] @ js ''}'') (js ''acme'')
     = Inl (PatternNotFound ''electron-builder linux.executableName insertion''
              (source linux_insert_re))\<close>
proof -
  let ?s1 = \<open>js ''linux: { executableName: 'a' }, mac: { executableName: "b" }''\<close>
  let ?r1 = \<open>js '' executableName: 'a' }, mac: { executableName: "b" }''\<close>
  let ?p1 = \<open>js '' }, mac: { executableName: "b" }''\<close>
  let ?s2 = \<open>js ''linux: {'' @ [10, 10] @ js ''  target: "deb" }''\<close>
  let ?p2 = \<open>js ''  target: "deb" }''\<close>
  let ?s3 = \<open>js ''mac: {'' @ [10] @ js ''}''\<close>
  have b1: "first_block [] [32] ?r1 ?s1"
    unfolding first_block_def opens_block_def by (simp add: js_def is_space_def)
  have f1: "first_field [32] [32] 39 (js ''a'') ?p1 ?r1"
    unfolding first_field_def
  proof (intro conjI allI impI)
    show "field_in [32] [32] 39 (js ''a'') ?p1 ?r1"
      unfolding field_in_def by (simp add: js_def is_space_def is_word_def is_quote_def)
    fix mid' ws2' q' old' post'
    assume "field_in mid' ws2' q' old' post' ?r1"
    then have "?r1 = mid' @ js ''executableName:'' @ ws2' @ q' # old' @ q' # post'"
      unfolding field_in_def by blast
    then have "mid' \<noteq> []" by (auto simp: js_def)
    then show "length [32::nat] \<le> length mid'" by (cases mid') simp_all
  qed
  have i1: "inside_block [32]" by (simp add: inside_block_def)
  have b2: "first_block [] [32] (10 # 10 # ?p2) ?s2"
    unfolding first_block_def opens_block_def by (simp add: js_def is_space_def)
  have n2: "\<not> exec_field_after False (js ''linux:'') ?s2"
    unfolding test_linux_test_iff [symmetric] by (simp add: linux_test_re_def engine_defs)
  have r2: "10 # 10 # ?p2 = [10] @ 10 # ?p2" "list_all is_space [10]"
    by (simp_all add: is_space_def)
  have g2: "\<not> (\<exists>w t. ?p2 = w @ 10 # t \<and> list_all is_space w)"
  proof
    assume "\<exists>w t. ?p2 = w @ 10 # t \<and> list_all is_space w"
    then obtain w t where "?p2 = w @ 10 # t" by blast
    then have "10 \<in> set ?p2" by (metis in_set_conv_decomp)
    then show False by (simp add: js_def)
  qed
  have a2: "36 \<notin> set (js ''acme'')" by (simp add: js_def)
  have n3: "\<not> exec_field_after False (js ''linux:'') ?s3"
    unfolding test_linux_test_iff [symmetric] by (simp add: linux_test_re_def engine_defs)
  have h3: "\<not> has_anchor ?s3"
    unfolding test_linux_insert_iff [symmetric] by (simp add: linux_insert_re_def engine_defs)
  have e1: \<open>[] @ js ''linux:'' @ [32] @ [123] @ [32] @ js ''executableName:'' @ [32]
               @ 39 # js ''acme'' @ 39 # ?p1
      = js ''linux: { executableName: 'acme' }, mac: { executableName: "b" }''\<close>
    by (simp add: js_def)
  have e2: \<open>[] @ js ''linux:'' @ [32] @ [123] @ [10] @ [10]
               @ js ''    executableName: "'' @ js ''acme'' @ js ''",'' @ [10] @ ?p2
      = js ''linux: {'' @ [10, 10] @ js ''    executableName: "acme",'' @ [10] @ ?p2\<close>
    by (simp add: js_def)
  have 1: \<open>ensureLinuxExecutableName ?s1 (js ''acme'')
     = Inr (js ''linux: { executableName: 'acme' }, mac: { executableName: "b" }'')\<close>
    using linux_executable_name_patch_or_insert
      [of "[]" "[32]" ?r1 ?s1 "[32]" "[32]" 39 "js ''a''" ?p1 "js ''acme''" "[]"] b1 f1 i1
    unfolding e1 by blast
  have 2: \<open>ensureLinuxExecutableName ?s2 (js ''acme'')
     = Inr (js ''linux: {'' @ [10, 10] @ js ''    executableName: "acme",'' @ [10] @ ?p2)\<close>
    using linux_executable_name_patch_or_insert
      [of "[]" "[32]" "10 # 10 # ?p2" ?s2 "[]" "[]" 0 "[]" ?p2 "js ''acme''" "[10]"] b2 n2 r2 g2 a2
    unfolding e2 by blast
  have 3: "ensureLinuxExecutableName ?s3 (js ''acme'')
     = Inl (PatternNotFound ''electron-builder linux.executableName insertion''
              (source linux_insert_re))"
    using linux_executable_name_patch_or_insert
      [of "[]" "[]" "[]" ?s3 "[]" "[]" 0 "[]" "[]" "js ''acme''" "[]"] n3 h3
    by blast
  show ?thesis using 1 2 3 by blast
qed

text \<open>
  The claim as the specification states it fails: a block written on one line as
  \<^verbatim>\<open>linux: { }\<close> has no line feed after its brace, and the patch fails on it.
\<close>

theorem linux_block_on_one_line_fails:
  \<open>ensureLinuxExecutableName (js ''linux: { }'') (js ''acme'')
     = Inl (PatternNotFound ''electron-builder linux.executableName insertion'' (source linux_insert_re))\<close>
  by (simp add: ensureLinuxExecutableName_def replaceOrThrow_def linux_test_re_def linux_re_def
      linux_insert_re_def engine_defs)

text \<open>
  The statement above leaves out a block without the field that a block with the field
  follows. The pattern of the test does not stop at the closing brace of the \<^verbatim>\<open>linux:\<close> block, so
  the field of the later block is rewritten and no line is inserted.
\<close>

lemma linux_field_of_later_block:
  \<open>ensureLinuxExecutableName (js ''linux: {'' @ [10] @ js ''}, mac: { executableName: "Flow" }'') (js ''acme'')
     = Inr (js ''linux: {'' @ [10] @ js ''}, mac: { executableName: "acme" }'')\<close>
  by (simp add: ensureLinuxExecutableName_def replaceOrThrow_def linux_test_re_def linux_re_def
      linux_insert_re_def engine_defs)

text \<open>
  Claim C5 fails on the code. The pattern of the Windows step does not stop at the closing
  brace of the \<^verbatim>\<open>win:\<close> block: when that block has no \<^verbatim>\<open>executableName\<close> field and a later block has
  one, the step rewrites the field of the later block, where the claim has the content left
  unchanged.
\<close>

theorem windows_alignment_crosses_blocks:
  \<open>alignWinExecutableName (js ''win: { }, mac: { executableName: "Flow" }'') (js ''acme'')
     = js ''win: { }, mac: { executableName: "acme" }''\<close>
  by (simp add: alignWinExecutableName_def win_test_re_def win_re_def engine_defs)

text \<open>
  Claim C6, as amended. On a content in which no \<^verbatim>\<open>linux:\<close> is followed by whitespace and an
  opening brace, \<^verbatim>\<open>ensureLinuxExecutableName\<close> fails with the pattern-not-found error that carries
  the description \<^verbatim>\<open>electron-builder linux.executableName insertion\<close>. When the file itself is
  such a content, and neither the application identifier nor the product name has a dollar
  sign or an opening brace, nor the executable name an opening brace, the handler reads the
  file once, fails with a pattern-not-found error and writes nothing; the error is the one of
  the Linux executable name when the \<^verbatim>\<open>appId\<close> and \<^verbatim>\<open>productName\<close> fields are found. Code unit 36 is the
  dollar sign and 123 the opening brace.
\<close>

theorem linux_anchor_missing:
  \<open>(\<not> has_linux_block content \<longrightarrow>
      ensureLinuxExecutableName content name
        = Inl (PatternNotFound ''electron-builder linux.executableName insertion'' (source linux_insert_re)) \<and>
      class_of (PatternNotFound ''electron-builder linux.executableName insertion'' (source linux_insert_re))
        = PatternNotFoundError) \<and>
   (files w ''electron-builder.ts'' = Some file \<and> \<not> has_linux_block file \<and>
    36 \<notin> set app_id \<and> 123 \<notin> set app_id \<and> 36 \<notin> set product_name \<and> 123 \<notin> set product_name \<and>
    123 \<notin> set name \<longrightarrow>
      (\<exists>what re. patchElectronBuilderTs app_id product_name name w
          = (Inl (PatternNotFound what re), w\<lparr>trace := trace w @ [ReadFile ''electron-builder.ts'']\<rparr>)) \<and>
      (\<forall>c1 c2.
         replaceOrThrow file appId_re (js ''$1"'' @ app_id @ js ''"$4'') ''electron-builder appId'' = Inr c1 \<and>
         replaceOrThrow c1 productName_re (js ''$1"'' @ product_name @ js ''"$4'')
           ''electron-builder productName'' = Inr c2 \<longrightarrow>
         patchElectronBuilderTs app_id product_name name w
           = (Inl (PatternNotFound ''electron-builder linux.executableName insertion''
                     (source linux_insert_re)),
              w\<lparr>trace := trace w @ [ReadFile ''electron-builder.ts'']\<rparr>)))\<close>
proof (intro conjI impI allI)
  assume "\<not> has_linux_block content"
  then show "ensureLinuxExecutableName content name
        = Inl (PatternNotFound ''electron-builder linux.executableName insertion'' (source linux_insert_re))"
    by (rule ensureLinux_no_block)
next
  show "class_of (PatternNotFound ''electron-builder linux.executableName insertion'' (source linux_insert_re))
        = PatternNotFoundError" by simp
next
  assume h: \<open>files w ''electron-builder.ts'' = Some file \<and> \<not> has_linux_block file \<and>
    36 \<notin> set app_id \<and> 123 \<notin> set app_id \<and> 36 \<notin> set product_name \<and> 123 \<notin> set product_name \<and>
    123 \<notin> set name\<close>
  have later: \<open>patchElectronBuilderTs app_id product_name name w
           = (Inl (PatternNotFound ''electron-builder linux.executableName insertion''
                     (source linux_insert_re)),
              w\<lparr>trace := trace w @ [ReadFile ''electron-builder.ts'']\<rparr>)\<close>
    if c: \<open>replaceOrThrow file appId_re (js ''$1"'' @ app_id @ js ''"$4'') ''electron-builder appId'' = Inr c1\<close>
      \<open>replaceOrThrow c1 productName_re (js ''$1"'' @ product_name @ js ''"$4'')
           ''electron-builder productName'' = Inr c2\<close> for c1 c2
  proof -
    have p: "36 \<notin> set app_id" "123 \<notin> set app_id" "36 \<notin> set product_name"
      "123 \<notin> set product_name" "123 \<notin> set name" "\<not> has_linux_block file"
      using h by blast+
    have "id_field_rewritten (js ''appId:'') app_id file c1"
      using c(1) p(1) by (rule replace_appId)
    then have 1: "\<not> has_linux_block c1" using p(2,6) by (rule id_rewrite_no_block)
    have "id_field_rewritten (js ''productName:'') product_name c1 c2"
      using c(2) p(3) by (rule replace_productName)
    then have 2: "\<not> has_linux_block c2" using p(4) 1 by (rule id_rewrite_no_block)
    have "\<not> has_linux_block (alignWinExecutableName c2 name)"
      using p(5) 2 by (rule alignWin_no_block)
    then have "ensureLinuxExecutableName (alignWinExecutableName c2 name) name
       = Inl (PatternNotFound ''electron-builder linux.executableName insertion'' (source linux_insert_re))"
      by (rule ensureLinux_no_block)
    moreover have "files w ''electron-builder.ts'' = Some file" using h by blast
    ultimately show ?thesis
      by (simp add: patchElectronBuilderTs_def patchElectronBuilderTs_content_def readFileSync_def c)
  qed
  show \<open>\<exists>what re. patchElectronBuilderTs app_id product_name name w
          = (Inl (PatternNotFound what re), w\<lparr>trace := trace w @ [ReadFile ''electron-builder.ts'']\<rparr>)\<close>
  proof -
    let ?ta = \<open>js ''$1"'' @ app_id @ js ''"$4''\<close> and ?tp = \<open>js ''$1"'' @ product_name @ js ''"$4''\<close>
    from replaceOrThrow_cases [of "file" appId_re ?ta "''electron-builder appId''"]
    show ?thesis
    proof
      assume \<open>\<exists>c. replaceOrThrow file appId_re (js ''$1"'' @ app_id @ js ''"$4'') ''electron-builder appId'' = Inr c\<close>
      then obtain c1 where c1: \<open>replaceOrThrow file appId_re (js ''$1"'' @ app_id @ js ''"$4'')
          ''electron-builder appId'' = Inr c1\<close> by blast
      from replaceOrThrow_cases [of c1 productName_re ?tp "''electron-builder productName''"]
      show ?thesis
      proof
        assume \<open>\<exists>c. replaceOrThrow c1 productName_re (js ''$1"'' @ product_name @ js ''"$4'')
            ''electron-builder productName'' = Inr c\<close>
        then obtain c2 where \<open>replaceOrThrow c1 productName_re (js ''$1"'' @ product_name @ js ''"$4'')
            ''electron-builder productName'' = Inr c2\<close> by blast
        from later [OF c1 this] show ?thesis by blast
      next
        assume \<open>replaceOrThrow c1 productName_re (js ''$1"'' @ product_name @ js ''"$4'')
            ''electron-builder productName''
          = Inl (PatternNotFound ''electron-builder productName'' (source productName_re))\<close>
        then show ?thesis
          using h c1 by (simp add: patchElectronBuilderTs_def patchElectronBuilderTs_content_def
              readFileSync_def)
      qed
    next
      assume \<open>replaceOrThrow file appId_re (js ''$1"'' @ app_id @ js ''"$4'') ''electron-builder appId''
          = Inl (PatternNotFound ''electron-builder appId'' (source appId_re))\<close>
      then show ?thesis
        using h by (simp add: patchElectronBuilderTs_def patchElectronBuilderTs_content_def
            readFileSync_def)
    qed
  qed
  fix c1 c2
  assume \<open>replaceOrThrow file appId_re (js ''$1"'' @ app_id @ js ''"$4'') ''electron-builder appId'' = Inr c1 \<and>
         replaceOrThrow c1 productName_re (js ''$1"'' @ product_name @ js ''"$4'')
           ''electron-builder productName'' = Inr c2\<close>
  then show \<open>patchElectronBuilderTs app_id product_name name w
           = (Inl (PatternNotFound ''electron-builder linux.executableName insertion''
                     (source linux_insert_re)),
              w\<lparr>trace := trace w @ [ReadFile ''electron-builder.ts'']\<rparr>)\<close>
    using later by blast
qed

theorem linux_anchor_missing_witness:
  \<open>\<not> has_linux_block (js ''appId: "a", productName: "b"'') \<and>
   ensureLinuxExecutableName (js ''appId: "a", productName: "b"'') (js ''acme'')
     = Inl (PatternNotFound ''electron-builder linux.executableName insertion'' (source linux_insert_re)) \<and>
   patchElectronBuilderTs (js ''x'') (js ''Y'') (js ''acme'')
     \<lparr>files = (\<lambda>path. None)(''electron-builder.ts'' \<mapsto> js ''appId: "a", productName: "b"''), trace = []\<rparr>
     = (Inl (PatternNotFound ''electron-builder linux.executableName insertion'' (source linux_insert_re)),
        \<lparr>files = (\<lambda>path. None)(''electron-builder.ts'' \<mapsto> js ''appId: "a", productName: "b"''),
         trace = [ReadFile ''electron-builder.ts'']\<rparr>)\<close>
proof -
  let ?f = \<open>js ''appId: "a", productName: "b"''\<close>
  let ?w = "\<lparr>files = (\<lambda>path. None)(''electron-builder.ts'' \<mapsto> ?f), trace = []\<rparr>"
  have n: "\<not> has_linux_block ?f"
    using has_linux_block_brace [of ?f] by (auto simp: js_def)
  have f: "files ?w ''electron-builder.ts'' = Some ?f" by simp
  have p: "36 \<notin> set (js ''x'')" "123 \<notin> set (js ''x'')" "36 \<notin> set (js ''Y'')" "123 \<notin> set (js ''Y'')"
    "123 \<notin> set (js ''acme'')"
    by (simp_all add: js_def)
  have c1: \<open>replaceOrThrow ?f appId_re (js ''$1"'' @ js ''x'' @ js ''"$4'') ''electron-builder appId''
      = Inr (js ''appId: "x"", productName: "b"'')\<close>
    by (simp add: run_defs engine_defs)
  have c2: \<open>replaceOrThrow (js ''appId: "x"", productName: "b"'') productName_re
      (js ''$1"'' @ js ''Y'' @ js ''"$4'') ''electron-builder productName''
      = Inr (js ''appId: "x"", productName: "Y""'')\<close>
    by (simp add: run_defs engine_defs)
  show ?thesis
    using linux_anchor_missing [of ?f "js ''acme''" ?w ?f "js ''x''" "js ''Y''"] n f p c1 c2
    by simp
qed

text \<open>
  The claim as the specification states it fails: the rewrites that come first put the
  product name into the content, and a product name that has \<^verbatim>\<open>linux:\<close> and an opening brace in
  it brings what the Linux step looks for. The file below has no \<^verbatim>\<open>linux:\<close> at all, and the
  handler patches it.
\<close>

theorem product_name_brings_linux_block:
  \<open>\<not> has_linux_block (js ''appId: "a", productName: "b", win: { executableName: "w" }'') \<and>
   patchElectronBuilderTs (js ''x'') (js ''A linux: { B'') (js ''acme'')
     \<lparr>files = (\<lambda>path. None)(''electron-builder.ts'' \<mapsto>
         js ''appId: "a", productName: "b", win: { executableName: "w" }''), trace = []\<rparr>
     = (Inr \<lparr>file_path = ''electron-builder.ts'', changed = True\<rparr>,
        \<lparr>files = (\<lambda>path. None)(''electron-builder.ts'' \<mapsto>
           js ''appId: "x"", productName: "A linux: { B"", win: { executableName: "acme" }''),
         trace = [ReadFile ''electron-builder.ts'', ReadFile ''electron-builder.ts'',
                  WriteFile ''electron-builder.ts''
                    (js ''appId: "x"", productName: "A linux: { B"", win: { executableName: "acme" }'')]\<rparr>)\<close>
proof -
  have \<open>\<not> str_includes (js ''appId: "a", productName: "b", win: { executableName: "w" }'') (js ''linux:'')\<close>
    by (simp add: str_includes_def looking_at_def js_def)
  then have 1: \<open>\<not> has_linux_block (js ''appId: "a", productName: "b", win: { executableName: "w" }'')\<close>
    using has_linux_block_includes by blast
  have 2: \<open>patchElectronBuilderTs (js ''x'') (js ''A linux: { B'') (js ''acme'')
     \<lparr>files = (\<lambda>path. None)(''electron-builder.ts'' \<mapsto>
         js ''appId: "a", productName: "b", win: { executableName: "w" }''), trace = []\<rparr>
     = (Inr \<lparr>file_path = ''electron-builder.ts'', changed = True\<rparr>,
        \<lparr>files = (\<lambda>path. None)(''electron-builder.ts'' \<mapsto>
           js ''appId: "x"", productName: "A linux: { B"", win: { executableName: "acme" }''),
         trace = [ReadFile ''electron-builder.ts'', ReadFile ''electron-builder.ts'',
                  WriteFile ''electron-builder.ts''
                    (js ''appId: "x"", productName: "A linux: { B"", win: { executableName: "acme" }'')]\<rparr>)\<close>
    by (simp add: run_defs engine_defs)
  show ?thesis using 1 2 by (rule conjI)
qed

text \<open>
  Claim C1 fails on the code. The replacement string of the \<^verbatim>\<open>appId\<close> and \<^verbatim>\<open>productName\<close>
  rewrites is \<^verbatim>\<open>$1"<value>"$4\<close>: the value is put between double quotes whatever the quote
  character was, and the closing quote of the old value is kept after them. Here the handler's
  computation runs on a configuration with a single-quoted \<^verbatim>\<open>appId\<close>.
\<close>

theorem quote_is_doubled_not_preserved:
  \<open>patchElectronBuilderTs_content (js ''new-id'') (js ''Acme'') (js ''acme'')
     (js ''appId: 'old-id', productName: "Flow", linux: {'' @ [10] @ js ''}'')
   = Inr (js ''appId: "new-id"', productName: "Acme"", linux: {'' @ [10]
          @ js ''    executableName: "acme",'' @ [10] @ js ''}'')\<close>
  by (simp add: run_defs engine_defs)

section \<open>The application header\<close>

text \<open>
  Claim C7, as amended. For a product name without a dollar sign the header handler replaces
  the occurrences of the banner from left to right, the search going on after each
  occurrence: it reads the file, writes the content so replaced when it differs from the
  file, and reports whether it wrote. A content without the banner is left as it is, whatever
  the product name: the handler reads the file, writes nothing and reports
  \<^verbatim>\<open>changed = false\<close>.
\<close>

theorem banner_replaced_left_to_right:
  "files w ''src/main/index.ts'' = Some content \<Longrightarrow>
   (36 \<notin> set product_name \<longrightarrow>
      patchMainHeader_content product_name content
        = replace_occurrences banner (js ''--- '' @ product_name @ js '' ---'') content \<and>
      patchMainHeader product_name w
        = (if replace_occurrences banner (js ''--- '' @ product_name @ js '' ---'') content = content
           then (Inr \<lparr>file_path = ''src/main/index.ts'', changed = False\<rparr>,
                 w\<lparr>trace := trace w @ [ReadFile ''src/main/index.ts'', ReadFile ''src/main/index.ts'']\<rparr>)
           else (Inr \<lparr>file_path = ''src/main/index.ts'', changed = True\<rparr>,
                 w\<lparr>files := (files w)(''src/main/index.ts'' \<mapsto>
                        replace_occurrences banner (js ''--- '' @ product_name @ js '' ---'') content),
                    trace := trace w @ [ReadFile ''src/main/index.ts'', ReadFile ''src/main/index.ts'',
                        WriteFile ''src/main/index.ts''
                          (replace_occurrences banner (js ''--- '' @ product_name @ js '' ---'') content)]\<rparr>))) \<and>
   (\<not> (\<exists>pre post. content = pre @ banner @ post) \<longrightarrow>
      patchMainHeader_content product_name content = content \<and>
      patchMainHeader product_name w
        = (Inr \<lparr>file_path = ''src/main/index.ts'', changed = False\<rparr>,
           w\<lparr>trace := trace w @ [ReadFile ''src/main/index.ts'', ReadFile ''src/main/index.ts'']\<rparr>))"
proof -
  assume f: "files w ''src/main/index.ts'' = Some content"
  have b: "banner \<noteq> []" by (simp add: banner_def js_def)
  have t: "36 \<notin> set (js ''--- '' @ product_name @ js '' ---'')" if "36 \<notin> set product_name"
    using that by (simp add: js_def)
  have 1: "patchMainHeader_content product_name content
        = replace_occurrences banner (js ''--- '' @ product_name @ js '' ---'') content"
    if p: "36 \<notin> set product_name"
  proof (cases "str_includes content banner")
    case True
    then show ?thesis
      using replaceAll_from_plain [OF t [OF p] b, of content 0]
      by (simp add: patchMainHeader_content_def replaceAll_def)
  next
    case False
    then show ?thesis
      by (simp add: patchMainHeader_content_def str_includes_iff replace_occurrences_absent)
  qed
  have 2: "patchMainHeader_content product_name content = content"
    if "\<not> (\<exists>pre post. content = pre @ banner @ post)"
    using that by (simp add: patchMainHeader_content_def str_includes_iff)
  have h: "patchMainHeader product_name w
      = (if patchMainHeader_content product_name content = content
         then (Inr \<lparr>file_path = ''src/main/index.ts'', changed = False\<rparr>,
               w\<lparr>trace := trace w @ [ReadFile ''src/main/index.ts'', ReadFile ''src/main/index.ts'']\<rparr>)
         else (Inr \<lparr>file_path = ''src/main/index.ts'', changed = True\<rparr>,
               w\<lparr>files := (files w)(''src/main/index.ts'' \<mapsto> patchMainHeader_content product_name content),
                  trace := trace w @ [ReadFile ''src/main/index.ts'', ReadFile ''src/main/index.ts'',
                      WriteFile ''src/main/index.ts'' (patchMainHeader_content product_name content)]\<rparr>))"
    using f by (auto simp: patchMainHeader_def readFileSync_def writeIfChanged_def writeFileSync_def)
  show ?thesis
  proof (intro conjI impI)
    assume p: "36 \<notin> set product_name"
    show "patchMainHeader_content product_name content
        = replace_occurrences banner (js ''--- '' @ product_name @ js '' ---'') content"
      using p by (rule 1)
    show "patchMainHeader product_name w
        = (if replace_occurrences banner (js ''--- '' @ product_name @ js '' ---'') content = content
           then (Inr \<lparr>file_path = ''src/main/index.ts'', changed = False\<rparr>,
                 w\<lparr>trace := trace w @ [ReadFile ''src/main/index.ts'', ReadFile ''src/main/index.ts'']\<rparr>)
           else (Inr \<lparr>file_path = ''src/main/index.ts'', changed = True\<rparr>,
                 w\<lparr>files := (files w)(''src/main/index.ts'' \<mapsto>
                        replace_occurrences banner (js ''--- '' @ product_name @ js '' ---'') content),
                    trace := trace w @ [ReadFile ''src/main/index.ts'', ReadFile ''src/main/index.ts'',
                        WriteFile ''src/main/index.ts''
                          (replace_occurrences banner (js ''--- '' @ product_name @ js '' ---'') content)]\<rparr>))"
      unfolding h 1 [OF p] ..
  next
    assume n: "\<not> (\<exists>pre post. content = pre @ banner @ post)"
    show "patchMainHeader_content product_name content = content" using n by (rule 2)
    show "patchMainHeader product_name w
        = (Inr \<lparr>file_path = ''src/main/index.ts'', changed = False\<rparr>,
           w\<lparr>trace := trace w @ [ReadFile ''src/main/index.ts'', ReadFile ''src/main/index.ts'']\<rparr>)"
      unfolding h using 2 [OF n] by simp
  qed
qed

theorem banner_replaced_left_to_right_witness:
  "patchMainHeader (js ''Acme'')
     \<lparr>files = (\<lambda>path. None)(''src/main/index.ts'' \<mapsto> js ''--- Flow Browser --- x --- Flow Browser ---''),
      trace = []\<rparr>
     = (Inr \<lparr>file_path = ''src/main/index.ts'', changed = True\<rparr>,
        \<lparr>files = (\<lambda>path. None)(''src/main/index.ts'' \<mapsto> js ''--- Acme --- x --- Acme ---''),
         trace = [ReadFile ''src/main/index.ts'', ReadFile ''src/main/index.ts'',
                  WriteFile ''src/main/index.ts'' (js ''--- Acme --- x --- Acme ---'')]\<rparr>) \<and>
   patchMainHeader (js ''Acme'') \<lparr>files = (\<lambda>path. None)(''src/main/index.ts'' \<mapsto> js ''main''), trace = []\<rparr>
     = (Inr \<lparr>file_path = ''src/main/index.ts'', changed = False\<rparr>,
        \<lparr>files = (\<lambda>path. None)(''src/main/index.ts'' \<mapsto> js ''main''),
         trace = [ReadFile ''src/main/index.ts'', ReadFile ''src/main/index.ts'']\<rparr>)"
proof -
  let ?c = "js ''--- Flow Browser --- x --- Flow Browser ---''"
  let ?v = "\<lparr>files = (\<lambda>path. None)(''src/main/index.ts'' \<mapsto> ?c), trace = []\<rparr>"
  let ?w = "\<lparr>files = (\<lambda>path. None)(''src/main/index.ts'' \<mapsto> js ''main''), trace = []\<rparr>"
  have 1: "36 \<notin> set (js ''Acme'')" by (simp add: js_def)
  have 2: "\<not> (\<exists>pre post. js ''main'' = pre @ banner @ post)"
    unfolding str_includes_iff [symmetric]
    by (simp add: str_includes_def banner_def looking_at_def js_def)
  have 3: "files ?w ''src/main/index.ts'' = Some (js ''main'')"
    "files ?v ''src/main/index.ts'' = Some ?c" by simp_all
  have 4: "replace_occurrences banner (js ''--- '' @ js ''Acme'' @ js '' ---'') ?c
      = js ''--- Acme --- x --- Acme ---''"
    by (simp add: replace_occurrences.simps banner_def js_def)
  have 5: "js ''--- Acme --- x --- Acme ---'' \<noteq> ?c" by (simp add: js_def)
  have a: "patchMainHeader (js ''Acme'') ?v
     = (Inr \<lparr>file_path = ''src/main/index.ts'', changed = True\<rparr>,
        \<lparr>files = (\<lambda>path. None)(''src/main/index.ts'' \<mapsto> js ''--- Acme --- x --- Acme ---''),
         trace = [ReadFile ''src/main/index.ts'', ReadFile ''src/main/index.ts'',
                  WriteFile ''src/main/index.ts'' (js ''--- Acme --- x --- Acme ---'')]\<rparr>)"
    using banner_replaced_left_to_right [OF 3(2), of "js ''Acme''"] 1 5 unfolding 4 by simp
  have b: "patchMainHeader (js ''Acme'') ?w
     = (Inr \<lparr>file_path = ''src/main/index.ts'', changed = False\<rparr>,
        \<lparr>files = (\<lambda>path. None)(''src/main/index.ts'' \<mapsto> js ''main''),
         trace = [ReadFile ''src/main/index.ts'', ReadFile ''src/main/index.ts'']\<rparr>)"
    using banner_replaced_left_to_right [OF 3(1), of "js ''Acme''"] 2 by simp
  show ?thesis using a b by (rule conjI)
qed

text \<open>
  The claim as the specification states it fails twice: the replacement string is expanded, so
  the product name \<^verbatim>\<open>$$\<close> gives the banner \<^verbatim>\<open>--- $ ---\<close>; and of two occurrences that share
  their dashes only the first is replaced.
\<close>

theorem banner_replacement_expands_dollar:
  "patchMainHeader_content (js ''$$'') (js ''--- Flow Browser ---'') = js ''--- $ ---'' \<and>
   patchMainHeader_content (js ''X'') (js ''--- Flow Browser --- Flow Browser ---'')
     = js ''--- X --- Flow Browser ---''"
  by (simp add: patchMainHeader_content_def str_includes_def replaceAll_def replaceAll_from.simps
      banner_def looking_at_def js_def is_digit_def)

section \<open>The run twice\<close>

text \<open>
  Claim C2 fails on the code. In the environment of the end-to-end scenario the first run
  succeeds and changes the four files; the second run, on the files the first one left,
  rewrites the builder configuration again (each run leaves one more double quote after the
  two values) and reports it as changed.
\<close>

theorem second_run_rewrites_builder_configuration:
  "main acme_env template_world
     = (Inr [\<lparr>file_path = ''package.json'', changed = True\<rparr>,
             \<lparr>file_path = ''electron-builder.ts'', changed = True\<rparr>,
             \<lparr>file_path = ''src/main/controllers/default-browser-controller/index.ts'', changed = True\<rparr>,
             \<lparr>file_path = ''src/main/index.ts'', changed = True\<rparr>],
        acme_world_once) \<and>
   main acme_env acme_world_once
     = (Inr [\<lparr>file_path = ''package.json'', changed = False\<rparr>,
             \<lparr>file_path = ''electron-builder.ts'', changed = True\<rparr>,
             \<lparr>file_path = ''src/main/controllers/default-browser-controller/index.ts'', changed = False\<rparr>,
             \<lparr>file_path = ''src/main/index.ts'', changed = False\<rparr>],
        acme_world_twice)"
  using first_run second_run by (rule conjI)

end
